theory Spec2Isabelle
  imports Complex_Main
begin

section \<open>Speech enhancement driver (denoiser/enhance.py)\<close>

text \<open>
  A shallow embedding of \<^verbatim>\<open>src/denoiser/enhance.py\<close>. Python exceptions are values of
  the type \<open>error\<close> on the left of a sum; the file system, the log and the worker pool
  are an explicit state that every operation returns updated, also when it fails.
  Samples are real numbers: the rounding of floating point arithmetic and the values
  that are not finite are not modelled. The collaborators that live in other modules
  (the pretrained models, the streaming engine, the loader, the dataset class, the
  manifest on disk) are parameters: the fields of the records \<open>streamer_api\<close> and
  \<open>world\<close>.
\<close>

subsection \<open>Errors\<close>

datatype error =
    IndexError          \<comment> \<open>indexing an empty batch\<close>
  | RuntimeError        \<comment> \<open>torch: shapes that do not fit, reduction of an empty tensor\<close>
  | ValueError          \<comment> \<open>\<^verbatim>\<open>os.path.relpath\<close> of an empty path, a pool without workers\<close>
  | OSError             \<comment> \<open>a path that cannot be created, opened or written\<close>
  | JSONDecodeError     \<comment> \<open>\<^verbatim>\<open>json.load\<close> on text that is not JSON\<close>
  | Failure string      \<comment> \<open>an exception raised inside a collaborator\<close>

subsection \<open>Tensors\<close>

text \<open>
  A waveform \<^verbatim>\<open>[channels, samples]\<close> is a list of channels; a batch
  \<^verbatim>\<open>[batch, channels, samples]\<close> is a list of waveforms. The shape of a tensor is read
  off the lists, so a tensor without entries along one dimension has no sizes beyond it.
\<close>

type_synonym wav = "real list list"
type_synonym tensor = "wav list"

fun collect :: "(error + 'a) list \<Rightarrow> error + 'a list" where
  "collect [] = Inr []"
| "collect (Inl e # _) = Inl e"
| "collect (Inr x # rs) = (case collect rs of Inl e \<Rightarrow> Inl e | Inr xs \<Rightarrow> Inr (x # xs))"

text \<open>
  Elementwise operations of torch broadcast along one dimension: the sizes agree, or
  one of them is 1 and its only entry is repeated; any other pair of sizes raises.
\<close>

definition broadcast :: "('a \<Rightarrow> 'b \<Rightarrow> error + 'c) \<Rightarrow> 'a list \<Rightarrow> 'b list \<Rightarrow> error + 'c list" where
  "broadcast f xs ys =
     (if length xs = length ys then collect (map2 f xs ys)
      else if length xs = 1 then collect (map (f (hd xs)) ys)
      else if length ys = 1 then collect (map (\<lambda>x. f x (hd ys)) xs)
      else Inl RuntimeError)"

definition tensor_add :: "tensor \<Rightarrow> tensor \<Rightarrow> error + tensor" where
  "tensor_add = broadcast (broadcast (broadcast (\<lambda>x y. Inr (x + y))))"

definition scale :: "real \<Rightarrow> tensor \<Rightarrow> tensor" where
  "scale c t = map (map (map (\<lambda>x. c * x))) t"

text \<open>\<^verbatim>\<open>torch.cat([a, b], dim=1)\<close> on two waveforms: the channel counts must agree.\<close>

definition cat_dim1 :: "wav \<Rightarrow> wav \<Rightarrow> error + wav" where
  "cat_dim1 a b = (if length a = length b then Inr (map2 (@) a b) else Inl RuntimeError)"

subsection \<open>Configuration and collaborators\<close>

text \<open>The input sources, as \<^verbatim>\<open>get_dataset\<close> reads them from \<^verbatim>\<open>args\<close> or \<^verbatim>\<open>args.dset\<close>.\<close>

record paths =
  p_noisy_json :: "string option"
  p_noisy_dir :: "string option"

text \<open>
  The namespace that \<^verbatim>\<open>parser\<close> produces: every attribute that the parser declares is
  present. \<open>dset\<close> is \<open>Some\<close> when the object has the attribute \<^verbatim>\<open>dset\<close> (a training
  configuration), which the command line never sets. The flags of
  \<^verbatim>\<open>pretrained.add_model_flags\<close> are read by \<^verbatim>\<open>pretrained.get_model\<close> only and are not
  fields.
\<close>

record args =
  device :: string
  dry :: real
  num_workers :: int
  streaming :: bool
  out_dir :: string
  batch_size :: int
  noisy_dir :: "string option"
  noisy_json :: "string option"
  dset :: "paths option"

record model =
  sample_rate :: nat
  chin :: nat
  forward :: "tensor \<Rightarrow> error + tensor"

subsection \<open>The estimator\<close>

text \<open>
  The streaming engine \<^verbatim>\<open>DemucsStreamer\<close> is in \<^verbatim>\<open>denoiser/demucs.py\<close>; here it is three
  parameters: the constructor, and \<^verbatim>\<open>feed\<close> and \<^verbatim>\<open>flush\<close>, which return their output
  and the engine's next state.
\<close>

record 's streamer_api =
  DemucsStreamer :: "model \<Rightarrow> real \<Rightarrow> 's"
  feed :: "'s \<Rightarrow> wav \<Rightarrow> error + wav \<times> 's"
  flush :: "'s \<Rightarrow> error + wav \<times> 's"

definition get_estimate :: "'s streamer_api \<Rightarrow> model \<Rightarrow> tensor \<Rightarrow> args \<Rightarrow> error + tensor" where
  "get_estimate api m noisy a =
     (if streaming a then
        (case noisy of
           [] \<Rightarrow> Inl IndexError
         | noisy0 # _ \<Rightarrow>
            (case feed api (DemucsStreamer api m (dry a)) noisy0 of
               Inl e \<Rightarrow> Inl e
             | Inr (fed, st) \<Rightarrow>
                (case flush api st of
                   Inl e \<Rightarrow> Inl e
                 | Inr (flushed, _) \<Rightarrow>
                    (case cat_dim1 fed flushed of
                       Inl e \<Rightarrow> Inl e
                     | Inr estimate \<Rightarrow> Inr [estimate]))))
      else
        (case forward m noisy of
           Inl e \<Rightarrow> Inl e
         | Inr estimate \<Rightarrow> tensor_add (scale (1 - dry a) estimate) (scale (dry a) noisy)))"

subsection \<open>Paths (\<^verbatim>\<open>posixpath\<close>)\<close>

text \<open>
  The functions of \<^verbatim>\<open>os.path\<close> that \<^verbatim>\<open>save_wavs\<close> calls, on POSIX, where the separator
  is the slash. They work on the text of a path and never touch the disk.
\<close>

definition is_sep :: "char \<Rightarrow> bool" where
  "is_sep c = (c = CHR ''/'')"

definition startswith_sep :: "string \<Rightarrow> bool" where
  "startswith_sep p = (case p of [] \<Rightarrow> False | c # _ \<Rightarrow> is_sep c)"

definition endswith_sep :: "string \<Rightarrow> bool" where
  "endswith_sep p = (p \<noteq> [] \<and> is_sep (last p))"

definition join :: "string \<Rightarrow> string \<Rightarrow> string" where
  "join a b =
     (if startswith_sep b then b
      else if a = [] \<or> endswith_sep a then a @ b
      else a @ ''/'' @ b)"

text \<open>\<^verbatim>\<open>basename\<close>: what follows the last slash.\<close>

definition basename :: "string \<Rightarrow> string" where
  "basename p = rev (takeWhile (\<lambda>c. \<not> is_sep c) (rev p))"

text \<open>
  \<^verbatim>\<open>dirname\<close>: what precedes the basename, without its trailing slashes unless it
  consists of slashes only.
\<close>

definition dirname :: "string \<Rightarrow> string" where
  "dirname p =
     (let head = rev (dropWhile (\<lambda>c. \<not> is_sep c) (rev p))
      in if head \<noteq> [] \<and> (\<exists>c \<in> set head. \<not> is_sep c)
         then rev (dropWhile is_sep (rev head)) else head)"

text \<open>
  \<^verbatim>\<open>splitext\<close>: the extension starts at the last dot of the basename, provided a
  character other than a dot stands before it in the basename; otherwise the path has
  no extension.
\<close>

definition splitext :: "string \<Rightarrow> string \<times> string" where
  "splitext p =
     (let name = basename p;
          ext = rev (takeWhile (\<lambda>c. c \<noteq> CHR ''.'') (rev name));
          stem = take (length name - length ext - 1) name
      in if CHR ''.'' \<in> set name \<and> (\<exists>c \<in> set stem. c \<noteq> CHR ''.'')
         then (take (length p - length ext - 1) p, CHR ''.'' # ext)
         else (p, []))"

text \<open>\<^verbatim>\<open>s.rsplit(".", 1)[0]\<close>: what precedes the last dot, or all of \<open>s\<close> without a dot.\<close>

definition rsplit_dot_0 :: "string \<Rightarrow> string" where
  "rsplit_dot_0 s =
     (if CHR ''.'' \<in> set s then rev (tl (dropWhile (\<lambda>c. c \<noteq> CHR ''.'') (rev s))) else s)"

text \<open>\<^verbatim>\<open>s.split("/")\<close> and \<^verbatim>\<open>"/".join(comps)\<close>.\<close>

fun split_sep :: "string \<Rightarrow> string list" where
  "split_sep [] = [[]]"
| "split_sep (c # cs) =
     (if is_sep c then [] # split_sep cs
      else (case split_sep cs of [] \<Rightarrow> [[c]] | x # xs \<Rightarrow> (c # x) # xs))"

fun join_sep :: "string list \<Rightarrow> string" where
  "join_sep [] = []"
| "join_sep [x] = x"
| "join_sep (x # y # ys) = x @ ''/'' @ join_sep (y # ys)"

text \<open>One round of the loop of \<^verbatim>\<open>normpath\<close> over the components.\<close>

definition normpath_step :: "nat \<Rightarrow> string list \<Rightarrow> string \<Rightarrow> string list" where
  "normpath_step initial_slashes new_comps c =
     (if c = [] \<or> c = ''.'' then new_comps
      else if c \<noteq> ''..'' \<or> (initial_slashes = 0 \<and> new_comps = [])
              \<or> (new_comps \<noteq> [] \<and> last new_comps = ''..'')
           then new_comps @ [c]
      else if new_comps \<noteq> [] then butlast new_comps
      else new_comps)"

definition normpath :: "string \<Rightarrow> string" where
  "normpath path =
     (if path = [] then ''.''
      else
        let initial_slashes =
              (if startswith_sep path
               then (if startswith_sep (tl path) \<and> \<not> startswith_sep (tl (tl path)) then 2 else 1)
               else 0);
            comps = foldl (normpath_step initial_slashes) [] (split_sep path);
            p = replicate initial_slashes CHR ''/'' @ join_sep comps
        in if p = [] then ''.'' else p)"

text \<open>\<^verbatim>\<open>abspath\<close>, with the working directory of the process as a parameter.\<close>

definition abspath :: "string \<Rightarrow> string \<Rightarrow> string" where
  "abspath cwd path = normpath (if startswith_sep path then path else join cwd path)"

fun commonprefix :: "'a list \<Rightarrow> 'a list \<Rightarrow> 'a list" where
  "commonprefix (x # xs) (y # ys) = (if x = y then x # commonprefix xs ys else [])"
| "commonprefix _ _ = []"

definition relpath :: "string \<Rightarrow> string \<Rightarrow> string \<Rightarrow> error + string" where
  "relpath cwd path start =
     (if path = [] then Inl ValueError
      else
        let start_list = filter (\<lambda>x. x \<noteq> []) (split_sep (abspath cwd start));
            path_list = filter (\<lambda>x. x \<noteq> []) (split_sep (abspath cwd path));
            i = length (commonprefix start_list path_list);
            rel_list = replicate (length start_list - i) ''..'' @ drop i path_list
        in (case rel_list of
              [] \<Rightarrow> Inr ''.''
            | c # cs \<Rightarrow> Inr (foldl join c cs)))"

subsection \<open>The file system\<close>

text \<open>
  What the run can see of the disk: the working directory of the process, the
  directories, and the audio files with their sample rates. A path names the list of
  its components below the root, found by \<^verbatim>\<open>abspath\<close>; links and access rights are
  not modelled.
\<close>

record filesystem =
  cwd :: string
  dirs :: "string list set"
  disk_files :: "string list \<rightharpoonup> wav \<times> nat"

definition resolve :: "filesystem \<Rightarrow> string \<Rightarrow> string list" where
  "resolve f p = filter (\<lambda>x. x \<noteq> []) (split_sep (abspath (cwd f) p))"

fun prefixes_of :: "'a list \<Rightarrow> 'a list list" where
  "prefixes_of [] = [[]]"
| "prefixes_of (x # xs) = [] # map ((#) x) (prefixes_of xs)"

text \<open>
  \<^verbatim>\<open>os.makedirs(name, exist_ok=True)\<close>: creates the directory and every missing
  ancestor. It raises for the empty name and where a file stands in the way.
\<close>

definition makedirs :: "string \<Rightarrow> filesystem \<Rightarrow> error + filesystem" where
  "makedirs name f =
     (if name = [] then Inl OSError
      else if list_ex (\<lambda>q. q \<in> dom (disk_files f)) (prefixes_of (resolve f name)) then Inl OSError
      else Inr (f\<lparr>dirs := dirs f \<union> set (prefixes_of (resolve f name))\<rparr>))"

text \<open>
  \<^verbatim>\<open>torchaudio.save(filename, wav, sr)\<close>: writes or overwrites the file. It raises when
  the path is a directory or the containing directory does not exist; the root always
  exists.
\<close>

definition torchaudio_save :: "string \<Rightarrow> wav \<Rightarrow> nat \<Rightarrow> filesystem \<Rightarrow> error + filesystem" where
  "torchaudio_save filename w sr f =
     (let p = resolve f filename
      in if p = [] \<or> p \<in> dirs f \<or> (butlast p \<noteq> [] \<and> butlast p \<notin> dirs f) then Inl OSError
         else Inr (f\<lparr>disk_files := (disk_files f)(p \<mapsto> (w, sr))\<rparr>))"

subsection \<open>Writing a waveform\<close>

text \<open>
  \<^verbatim>\<open>wav.abs().max().item()\<close>: torch refuses to reduce a tensor without elements.
  The function \<^verbatim>\<open>write\<close> of the source is \<open>write_wav\<close> here.
\<close>

definition abs_max :: "wav \<Rightarrow> error + real" where
  "abs_max w = (if concat w = [] then Inl RuntimeError else Inr (Max (set (map abs (concat w)))))"

definition write_wav :: "wav \<Rightarrow> string \<Rightarrow> nat \<Rightarrow> filesystem \<Rightarrow> error + filesystem" where
  "write_wav w filename sr f =
     (case abs_max w of
        Inl e \<Rightarrow> Inl e
      | Inr peak \<Rightarrow> torchaudio_save filename (map (map (\<lambda>x. x / max peak 1)) w) sr f)"

subsection \<open>Planning the output path and saving\<close>

text \<open>
  \<^verbatim>\<open>if input_root:\<close> holds for a string that is not empty. \<open>output_path\<close> is the path
  that one round of the loop of \<^verbatim>\<open>save_wavs\<close> computes for \<^verbatim>\<open>filename\<close>.
\<close>

definition truthy :: "string option \<Rightarrow> bool" where
  "truthy x = (case x of None \<Rightarrow> False | Some v \<Rightarrow> v \<noteq> [])"

definition output_path :: "filesystem \<Rightarrow> string \<Rightarrow> string \<Rightarrow> string option \<Rightarrow> error + string" where
  "output_path f out filename input_root =
     (if truthy input_root then
        (case relpath (cwd f) filename (the input_root) of
           Inl e \<Rightarrow> Inl e
         | Inr rel_path \<Rightarrow> Inr (fst (splitext (join out rel_path)) @ ''.wav''))
      else Inr (join out (rsplit_dot_0 (basename filename) @ ''.wav'')))"

fun save_wavs ::
  "wav list \<Rightarrow> wav list \<Rightarrow> string list \<Rightarrow> string \<Rightarrow> string option \<Rightarrow> nat \<Rightarrow> filesystem
    \<Rightarrow> (error + unit) \<times> filesystem" where
  "save_wavs (estimate # estimates) (noisy # noisy_sigs) (filename # filenames) out input_root sr f =
     (case output_path f out filename input_root of
        Inl e \<Rightarrow> (Inl e, f)
      | Inr path \<Rightarrow>
         (case (if truthy input_root then makedirs (dirname path) f else Inr f) of
            Inl e \<Rightarrow> (Inl e, f)
          | Inr f1 \<Rightarrow>
             (case write_wav estimate path sr f1 of
                Inl e \<Rightarrow> (Inl e, f1)
              | Inr f2 \<Rightarrow> save_wavs estimates noisy_sigs filenames out input_root sr f2)))"
| "save_wavs _ _ _ out input_root sr f = (Inr (), f)"

subsection \<open>Resolving the dataset\<close>

text \<open>
  The value that \<^verbatim>\<open>json.load\<close> returns. The manifest named by \<^verbatim>\<open>noisy_json\<close> is
  missing, or is not JSON, or parses to a value.
\<close>

datatype json =
    JNull
  | JBool bool
  | JNumber real
  | JString string
  | JArray "json list"
  | JObject "(string \<times> json) list"

datatype manifest = Missing | Malformed | Parsed json

text \<open>
  A dataset yields, entry by entry, a signal and its path, or raises when the entry
  cannot be decoded. The loader groups entries into batches: the signals stacked into
  one tensor, and the list of their paths.
\<close>

type_synonym dataset = "(error + wav \<times> string) list"
type_synonym batch = "tensor \<times> string list"

text \<open>
  The collaborators of \<^verbatim>\<open>enhance\<close> in other modules: \<^verbatim>\<open>pretrained.get_model\<close> followed
  by the move to the device, \<^verbatim>\<open>distrib.rank\<close> and \<^verbatim>\<open>distrib.loader\<close>,
  \<^verbatim>\<open>audio.find_audio_files\<close> and \<^verbatim>\<open>audio.Audioset\<close> (with its sample rate and channel
  count), the streaming engine, and the manifests on disk. \<^verbatim>\<open>distrib.barrier\<close> is left
  out: the run is that of one process.
\<close>

record 's world =
  streamer :: "'s streamer_api"
  get_model :: "args \<Rightarrow> error + model"
  rank :: nat
  loader :: "dataset \<Rightarrow> nat \<Rightarrow> (error + batch) list"
  find_audio_files :: "string \<Rightarrow> error + json"
  Audioset :: "json \<Rightarrow> nat \<Rightarrow> nat \<Rightarrow> error + dataset"
  manifest_at :: "string \<Rightarrow> manifest"

text \<open>\<^verbatim>\<open>with open(path) as f: files = json.load(f)\<close>\<close>

definition json_load :: "'s world \<Rightarrow> string \<Rightarrow> error + json" where
  "json_load w path =
     (case manifest_at w path of
        Missing \<Rightarrow> Inl OSError
      | Malformed \<Rightarrow> Inl JSONDecodeError
      | Parsed v \<Rightarrow> Inr v)"

text \<open>What the run changes: the disk, the warnings of the logger and the standard output.\<close>

record state =
  fs :: filesystem
  warnings :: "string list"
  stdout :: "string list"

definition skip_warning :: string where
  "skip_warning =
     ''Small sample set was not provided by either noisy_dir or noisy_json. Skipping enhancement.''"

definition get_dataset ::
  "'s world \<Rightarrow> args \<Rightarrow> nat \<Rightarrow> nat \<Rightarrow> state \<Rightarrow> (error + dataset option) \<times> state" where
  "get_dataset w a sr channels s =
     (let paths = (case dset a of
                     Some d \<Rightarrow> d
                   | None \<Rightarrow> \<lparr>p_noisy_json = noisy_json a, p_noisy_dir = noisy_dir a\<rparr>)
      in if truthy (p_noisy_json paths) then
           (case json_load w (the (p_noisy_json paths)) of
              Inl e \<Rightarrow> (Inl e, s)
            | Inr files \<Rightarrow>
               (case Audioset w files sr channels of
                  Inl e \<Rightarrow> (Inl e, s)
                | Inr d \<Rightarrow> (Inr (Some d), s)))
         else if truthy (p_noisy_dir paths) then
           (case find_audio_files w (the (p_noisy_dir paths)) of
              Inl e \<Rightarrow> (Inl e, s)
            | Inr files \<Rightarrow>
               (case Audioset w files sr channels of
                  Inl e \<Rightarrow> (Inl e, s)
                | Inr d \<Rightarrow> (Inr (Some d), s)))
         else (Inr None, s\<lparr>warnings := warnings s @ [skip_warning]\<rparr>))"

subsection \<open>The work unit\<close>

text \<open>
  The five arguments of \<^verbatim>\<open>_estimate_and_save\<close>, which the scheduler hands to the pool,
  and the function itself (\<open>estimate_and_save\<close> here).
\<close>

record job =
  j_model :: model
  j_noisy_signals :: tensor
  j_filenames :: "string list"
  j_out_dir :: string
  j_args :: args

definition estimate_and_save :: "'s streamer_api \<Rightarrow> job \<Rightarrow> filesystem \<Rightarrow> (error + unit) \<times> filesystem" where
  "estimate_and_save api j f =
     (case get_estimate api (j_model j) (j_noisy_signals j) (j_args j) of
        Inl e \<Rightarrow> (Inl e, f)
      | Inr estimate \<Rightarrow>
         save_wavs estimate (j_noisy_signals j) (j_filenames j) (j_out_dir j)
           (if truthy (noisy_dir (j_args j)) then noisy_dir (j_args j) else None)
           (sample_rate (j_model j)) f)"

subsection \<open>The worker pool\<close>

text \<open>
  \<^verbatim>\<open>ProcessPoolExecutor\<close>: the jobs submitted, in order, and the outcomes of those that
  have run. The workers of the pool run side by side; the model runs the jobs one by
  one in the order of submission, each no sooner than something waits for it: its
  \<^verbatim>\<open>result()\<close>, that of a later job, or the shutdown of the pool at the end of the
  \<^verbatim>\<open>with\<close> block, which waits for every job submitted. A future is the position of
  its job.
\<close>

record executor =
  max_workers :: int
  work :: "job list"
  outcomes :: "(error + unit) list"

type_synonym future = nat

definition ProcessPoolExecutor :: "int \<Rightarrow> error + executor" where
  "ProcessPoolExecutor n =
     (if n \<le> 0 then Inl ValueError else Inr \<lparr>max_workers = n, work = [], outcomes = []\<rparr>)"

definition submit :: "job \<Rightarrow> executor \<Rightarrow> future \<times> executor" where
  "submit j pool = (length (work pool), pool\<lparr>work := work pool @ [j]\<rparr>)"

fun run_jobs ::
  "'s streamer_api \<Rightarrow> job list \<Rightarrow> (error + unit) list \<times> filesystem \<Rightarrow> (error + unit) list \<times> filesystem" where
  "run_jobs api [] (done, f) = (done, f)"
| "run_jobs api (j # js) (done, f) =
     (case estimate_and_save api j f of (r, f') \<Rightarrow> run_jobs api js (done @ [r], f'))"

text \<open>\<open>advance api n\<close>: the pool works until the first \<open>n\<close> jobs submitted have run.\<close>

definition advance :: "'s streamer_api \<Rightarrow> nat \<Rightarrow> executor \<times> filesystem \<Rightarrow> executor \<times> filesystem" where
  "advance api n pf =
     (case pf of (pool, f) \<Rightarrow>
        (case run_jobs api (take (n - length (outcomes pool)) (drop (length (outcomes pool)) (work pool)))
                (outcomes pool, f) of
           (done, f') \<Rightarrow> (pool\<lparr>outcomes := done\<rparr>, f')))"

text \<open>
  \<^verbatim>\<open>pending.result()\<close> waits for the job and returns, or raises what the job raised.
  A future that the pool never issued has no outcome; \<^verbatim>\<open>enhance\<close> holds none.
\<close>

definition result ::
  "'s streamer_api \<Rightarrow> future \<Rightarrow> executor \<times> filesystem \<Rightarrow> (error + unit) \<times> executor \<times> filesystem" where
  "result api pending pf =
     (case advance api (Suc pending) pf of (pool, f) \<Rightarrow>
        (if pending < length (outcomes pool) then outcomes pool ! pending
         else Inl (Failure ''no such future''), pool, f))"

definition shutdown :: "'s streamer_api \<Rightarrow> executor \<times> filesystem \<Rightarrow> executor \<times> filesystem" where
  "shutdown api pf = advance api (length (work (fst pf))) pf"

subsection \<open>The scheduler\<close>

text \<open>
  The loop of \<^verbatim>\<open>enhance\<close> over the loader, which raises when the loader does. Moving
  the signals to the device leaves them as they are.
\<close>

fun enhance_dispatch ::
  "'s streamer_api \<Rightarrow> model \<Rightarrow> string \<Rightarrow> args \<Rightarrow> (error + batch) list \<Rightarrow> future list
    \<Rightarrow> executor \<times> filesystem \<Rightarrow> (error + future list) \<times> executor \<times> filesystem" where
  "enhance_dispatch api m out a [] pendings pf = (Inr pendings, pf)"
| "enhance_dispatch api m out a (Inl e # rest) pendings pf = (Inl e, pf)"
| "enhance_dispatch api m out a (Inr (noisy_signals, filenames) # rest) pendings (pool, f) =
     (if device a = ''cpu'' \<and> num_workers a > 1 then
        (case submit \<lparr>j_model = m, j_noisy_signals = noisy_signals, j_filenames = filenames,
                      j_out_dir = out, j_args = a\<rparr> pool of
           (pending, pool') \<Rightarrow> enhance_dispatch api m out a rest (pendings @ [pending]) (pool', f))
      else
        (case get_estimate api m noisy_signals a of
           Inl e \<Rightarrow> (Inl e, pool, f)
         | Inr estimate \<Rightarrow>
            (case save_wavs estimate noisy_signals filenames out
                    (if truthy (noisy_dir a) then noisy_dir a else None) (sample_rate m) f of
               (Inl e, f') \<Rightarrow> (Inl e, pool, f')
             | (Inr _, f') \<Rightarrow> enhance_dispatch api m out a rest pendings (pool, f'))))"

text \<open>The loop over \<^verbatim>\<open>pendings\<close>.\<close>

fun enhance_drain ::
  "'s streamer_api \<Rightarrow> future list \<Rightarrow> executor \<times> filesystem \<Rightarrow> (error + unit) \<times> executor \<times> filesystem" where
  "enhance_drain api [] pf = (Inr (), pf)"
| "enhance_drain api (pending # rest) pf =
     (case result api pending pf of
        (Inl e, pf') \<Rightarrow> (Inl e, pf')
      | (Inr _, pf') \<Rightarrow> enhance_drain api rest pf')"

text \<open>
  Modelled from the spec: \<^verbatim>\<open>LogProgress\<close> of \<^verbatim>\<open>denoiser/utils.py\<close> is not under
  \<^verbatim>\<open>src/\<close>. The scheduler is to iterate the dataset one item at a time and to join every
  submitted job in submission order, so the wrapper hands on the entries of the list it
  wraps, in their order; the progress lines it logs are left out.
\<close>

definition LogProgress :: "'a list \<Rightarrow> 'a list" where
  "LogProgress xs = xs"

text \<open>
  The \<^verbatim>\<open>with ProcessPoolExecutor(args.num_workers) as pool\<close> block: whether its body
  returns or raises, leaving the block shuts the pool down.
\<close>

definition enhance_pool ::
  "'s streamer_api \<Rightarrow> model \<Rightarrow> string \<Rightarrow> args \<Rightarrow> (error + batch) list \<Rightarrow> state
    \<Rightarrow> (error + unit) \<times> state" where
  "enhance_pool api m out a batches s =
     (case ProcessPoolExecutor (num_workers a) of
        Inl e \<Rightarrow> (Inl e, s)
      | Inr pool \<Rightarrow>
         (case enhance_dispatch api m out a (LogProgress batches) [] (pool, fs s) of
            (Inl e, pf) \<Rightarrow> (Inl e, s\<lparr>fs := snd (shutdown api pf)\<rparr>)
          | (Inr pendings, pf) \<Rightarrow>
             (if pendings \<noteq> [] then
                (case enhance_drain api (LogProgress pendings) pf of
                   (r, pf') \<Rightarrow>
                     (r, s\<lparr>fs := snd (shutdown api pf'),
                            stdout := stdout s @ [''Waiting for pending jobs...'']\<rparr>))
              else (Inr (), s\<lparr>fs := snd (shutdown api pf)\<rparr>))))"

definition enhance ::
  "'s world \<Rightarrow> args \<Rightarrow> model option \<Rightarrow> string option \<Rightarrow> state \<Rightarrow> (error + unit) \<times> state" where
  "enhance w a model_arg local_out_dir s =
     (case (case model_arg of None \<Rightarrow> get_model w a | Some m \<Rightarrow> Inr m) of
        Inl e \<Rightarrow> (Inl e, s)
      | Inr m \<Rightarrow>
         (case get_dataset w a (sample_rate m) (chin m) s of
            (Inl e, s1) \<Rightarrow> (Inl e, s1)
          | (Inr None, s1) \<Rightarrow> (Inr (), s1)
          | (Inr (Some d), s1) \<Rightarrow>
             (case (if rank w = 0
                    then makedirs (if truthy local_out_dir then the local_out_dir else out_dir a) (fs s1)
                    else Inr (fs s1)) of
                Inl e \<Rightarrow> (Inl e, s1)
              | Inr f2 \<Rightarrow>
                 enhance_pool (streamer w) m
                   (if truthy local_out_dir then the local_out_dir else out_dir a) a
                   (loader w d 1) (s1\<lparr>fs := f2\<rparr>))))"

text \<open>
  The script: \<^verbatim>\<open>enhance(args, local_out_dir=args.out_dir)\<close>. The exit status of the
  interpreter is 1 after an exception that nothing caught, and 0 otherwise.
\<close>

definition main :: "'s world \<Rightarrow> args \<Rightarrow> state \<Rightarrow> int \<times> state" where
  "main w a s =
     (case enhance w a None (Some (out_dir a)) s of
        (Inl e, s') \<Rightarrow> (1, s')
      | (Inr _, s') \<Rightarrow> (0, s'))"

subsection \<open>Reference definitions\<close>

text \<open>
  The blend of the specification, sample by sample:
  \<open>(1 - dry) * raw_estimate + dry * noisy\<close>, and the shape of a batch.
\<close>

definition blend :: "real \<Rightarrow> tensor \<Rightarrow> tensor \<Rightarrow> tensor" where
  "blend d raw noisy = map2 (map2 (map2 (\<lambda>e n. (1 - d) * e + d * n))) raw noisy"

definition shape :: "tensor \<Rightarrow> nat list list" where
  "shape t = map (map length) t"

text \<open>The peak absolute amplitude of a waveform that has a sample.\<close>

definition peak_amplitude :: "wav \<Rightarrow> real" where
  "peak_amplitude w = Max (abs ` set (concat w))"

text \<open>
  A path with its extension replaced by \<^verbatim>\<open>.wav\<close>, the extension being that of
  \<^verbatim>\<open>os.path.splitext\<close>; and what \<^verbatim>\<open>os.path.join\<close> puts before a relative second argument.
\<close>

definition replace_ext :: "string \<Rightarrow> string" where
  "replace_ext p = fst (splitext p) @ ''.wav''"

definition join_prefix :: "string \<Rightarrow> string" where
  "join_prefix a = (if a = [] \<or> endswith_sep a then a else a @ ''/'')"

text \<open>
  The work unit of a batch; the condition under which \<^verbatim>\<open>enhance\<close> hands work to the pool;
  the first failure in a list of outcomes; and what the outcomes of the jobs that have
  run look like once \<open>n\<close> futures have been waited for in order with the result \<open>r\<close>.
\<close>

definition work_unit :: "model \<Rightarrow> string \<Rightarrow> args \<Rightarrow> batch \<Rightarrow> job" where
  "work_unit m out a b =
     \<lparr>j_model = m, j_noisy_signals = fst b, j_filenames = snd b, j_out_dir = out, j_args = a\<rparr>"

definition pooled :: "args \<Rightarrow> bool" where
  "pooled a \<longleftrightarrow> device a = ''cpu'' \<and> 1 < num_workers a"

fun first_failure :: "(error + unit) list \<Rightarrow> error + unit" where
  "first_failure [] = Inr ()"
| "first_failure (Inl e # _) = Inl e"
| "first_failure (Inr _ # os) = first_failure os"

definition joined :: "(error + unit) \<Rightarrow> (error + unit) list \<Rightarrow> nat \<Rightarrow> bool" where
  "joined r os n \<longleftrightarrow>
     (case r of
        Inr _ \<Rightarrow> length os = n \<and> (\<forall>q \<in> set os. q = Inr ())
      | Inl e \<Rightarrow> os \<noteq> [] \<and> length os \<le> n \<and> last os = Inl e \<and> (\<forall>q \<in> set (butlast os). q = Inr ()))"

text \<open>
  The object whose \<^verbatim>\<open>noisy_json\<close> and \<^verbatim>\<open>noisy_dir\<close> \<^verbatim>\<open>get_dataset\<close> reads; a job with
  another \<^verbatim>\<open>batch_size\<close> in its configuration; and a pool whose jobs are changed.
\<close>

definition sources :: "args \<Rightarrow> paths" where
  "sources a = (case dset a of
                  Some d \<Rightarrow> d
                | None \<Rightarrow> \<lparr>p_noisy_json = noisy_json a, p_noisy_dir = noisy_dir a\<rparr>)"

definition with_batch_size :: "int \<Rightarrow> job \<Rightarrow> job" where
  "with_batch_size b j = j\<lparr>j_args := (j_args j)\<lparr>batch_size := b\<rparr>\<rparr>"

definition map_work :: "(job \<Rightarrow> job) \<Rightarrow> executor \<Rightarrow> executor" where
  "map_work g pool = pool\<lparr>work := map g (work pool)\<rparr>"

subsection \<open>An example run\<close>

text \<open>
  The defaults of \<^verbatim>\<open>parser\<close>, a model that halves every sample and fails on one
  sample of silence, a streaming engine that returns what it is fed and flushes one
  sample of silence, a disk that has the directory \<^verbatim>\<open>/out\<close>, and five batches of which
  the third makes the model fail. In the example world the model always loads, the
  loader puts every entry in a batch of its own, \<^verbatim>\<open>Audioset\<close> takes one entry for each
  element of \<^verbatim>\<open>files\<close> (the strings of a list, the keys of an object), and there are
  three manifests: a list of one file, an empty object, and one that is not JSON.
\<close>

definition parser_defaults :: args where
  "parser_defaults =
     \<lparr>device = ''cpu'', dry = 0, num_workers = 10, streaming = False, out_dir = ''enhanced'',
      batch_size = 1, noisy_dir = None, noisy_json = None, dset = None\<rparr>"

definition example_api :: "nat streamer_api" where
  "example_api =
     \<lparr>DemucsStreamer = (\<lambda>m d. 0),
      feed = (\<lambda>st x. Inr (x, Suc st)),
      flush = (\<lambda>st. Inr ([[0]], st))\<rparr>"

definition example_model :: model where
  "example_model =
     \<lparr>sample_rate = 16000, chin = 1,
      forward = (\<lambda>t. if t = [[[0]]] then Inl (Failure ''InferenceError'') else Inr (scale (1 / 2) t))\<rparr>"

definition example_fs :: filesystem where
  "example_fs =
     \<lparr>cwd = ''/home/u'', dirs = {[], [''home''], [''home'', ''u''], [''out'']}, disk_files = Map.empty\<rparr>"

definition example_batches :: "batch list" where
  "example_batches =
     [([[[2]]], [''/in/a.wav'']), ([[[4]]], [''/in/b.wav'']), ([[[0]]], [''/in/c.wav'']),
      ([[[6]]], [''/in/d.wav'']), ([[[8]]], [''/in/e.wav''])]"

definition example_state :: state where
  "example_state = \<lparr>fs = example_fs, warnings = [], stdout = []\<rparr>"

definition example_pool :: executor where
  "example_pool =
     \<lparr>max_workers = 10,
      work = map (work_unit example_model ''/out'' parser_defaults) example_batches,
      outcomes = []\<rparr>"

definition example_world :: "nat world" where
  "example_world =
     \<lparr>streamer = example_api,
      get_model = (\<lambda>a. Inr example_model),
      rank = 0,
      loader = (\<lambda>d n. map (map_sum id (\<lambda>(signal, path). ([signal], [path]))) d),
      find_audio_files = (\<lambda>dir. Inr (JArray [])),
      Audioset = (\<lambda>files sr channels.
         case files of
           JArray xs \<Rightarrow> Inr (map (\<lambda>x. case x of JString p \<Rightarrow> Inr ([[2]], p)
                                               | _ \<Rightarrow> Inl (Failure ''TypeError'')) xs)
         | JObject kvs \<Rightarrow> Inr (map (\<lambda>(k, v). Inr ([[2]], k)) kvs)
         | _ \<Rightarrow> Inl (Failure ''TypeError'')),
      manifest_at = (\<lambda>p. if p = ''/list.json'' then Parsed (JArray [JString ''/in/a.wav''])
                         else if p = ''/m.json'' then Parsed (JObject [])
                         else if p = ''/bad.json'' then Malformed else Missing)\<rparr>"

section \<open>Properties\<close>

subsection \<open>The estimator\<close>

lemma collect_all_Inr:
  "(\<And>r. r \<in> set rs \<Longrightarrow> \<exists>x. r = Inr x) \<Longrightarrow> collect rs = Inr (map projr rs)"
proof (induction rs)
  case Nil
  then show ?case by simp
next
  case (Cons r rs)
  then obtain x where "r = Inr x" by auto
  with Cons show ?case by simp
qed

lemma broadcast_same_length:
  assumes "length xs = length ys"
    and "\<And>x y. (x, y) \<in> set (zip xs ys) \<Longrightarrow> f x y = Inr (g x y)"
  shows "broadcast f xs ys = Inr (map2 g xs ys)"
proof -
  have "collect (map2 f xs ys) = Inr (map projr (map2 f xs ys))"
    by (rule collect_all_Inr) (use assms(2) in auto)
  moreover have "map projr (map2 f xs ys) = map2 g xs ys"
    using assms(2) by auto
  ultimately show ?thesis using assms(1) by (simp add: broadcast_def)
qed

lemma tensor_add_same_shape:
  assumes "shape s = shape t"
  shows "tensor_add s t = Inr (map2 (map2 (map2 (+))) s t)"
proof -
  have len: "length s = length t"
    using assms by (metis length_map shape_def)
  have inner: "broadcast (broadcast (\<lambda>x y. Inr (x + y))) u v = Inr (map2 (map2 (+)) u v)"
    if "map length u = map length v" for u v :: wav
  proof (rule broadcast_same_length)
    show "length u = length v" using that by (metis length_map)
  next
    fix x y assume "(x, y) \<in> set (zip u v)"
    then obtain i where i: "i < length u" "i < length v" "x = u ! i" "y = v ! i"
      by (auto simp: in_set_zip)
    then have "length x = length y"
      using that by (metis nth_map)
    then show "broadcast (\<lambda>x y. Inr (x + y)) x y = Inr (map2 (+) x y)"
      by (intro broadcast_same_length) auto
  qed
  show ?thesis unfolding tensor_add_def
  proof (rule broadcast_same_length[OF len])
    fix u v assume "(u, v) \<in> set (zip s t)"
    then obtain i where i: "i < length s" "i < length t" "u = s ! i" "v = t ! i"
      by (auto simp: in_set_zip)
    have "map length u = map length v"
      using assms i unfolding shape_def by (metis nth_map)
    then show "broadcast (broadcast (\<lambda>x y. Inr (x + y))) u v = Inr (map2 (map2 (+)) u v)"
      by (rule inner)
  qed
qed


lemma scale_shape: "shape (scale c t) = shape t"
  by (simp add: shape_def scale_def comp_def)

lemma map2_scale_add:
  "map2 (map2 (map2 (+))) (scale c s) (scale d t) = map2 (map2 (map2 (\<lambda>x y. c * x + d * y))) s t"
  unfolding scale_def
  by (simp add: zip_map1 zip_map2 map_zip_map map_zip_map2 case_prod_unfold comp_def)


lemma map2_left:
  "length xs = length ys \<Longrightarrow> (\<And>x y. (x, y) \<in> set (zip xs ys) \<Longrightarrow> f x y = x) \<Longrightarrow> map2 f xs ys = xs"
  by (induction xs ys rule: list_induct2) auto

lemma map2_right:
  "length xs = length ys \<Longrightarrow> (\<And>x y. (x, y) \<in> set (zip xs ys) \<Longrightarrow> f x y = y) \<Longrightarrow> map2 f xs ys = ys"
  by (induction xs ys rule: list_induct2) auto

lemma shape_zip:
  assumes "shape s = shape t" and "(u, v) \<in> set (zip s t)"
  shows "map length u = map length v"
proof -
  from assms(2) obtain i where "i < length s" "i < length t" "u = s ! i" "v = t ! i"
    by (auto simp: in_set_zip)
  with assms(1) show ?thesis unfolding shape_def by (metis nth_map)
qed

lemma lengths_zip:
  assumes "map length u = map length v" and "(x, y) \<in> set (zip u v)"
  shows "length x = length y"
proof -
  from assms(2) obtain i where "i < length u" "i < length v" "x = u ! i" "y = v ! i"
    by (auto simp: in_set_zip)
  with assms(1) show ?thesis by (metis nth_map)
qed

lemma shape_length: "shape s = shape t \<Longrightarrow> length s = length t"
  unfolding shape_def by (metis length_map)

lemma blend_0: 
  assumes "shape raw = shape noisy" shows "blend 0 raw noisy = raw"
  unfolding blend_def
proof (rule map2_left[OF shape_length[OF assms]])
  fix u v assume uv: "(u, v) \<in> set (zip raw noisy)"
  have l: "map length u = map length v" by (rule shape_zip[OF assms uv])
  show "map2 (map2 (\<lambda>e n. (1 - 0) * e + 0 * n)) u v = u"
  proof (rule map2_left)
    show "length u = length v" using l by (metis length_map)
  next
    fix x y assume "(x, y) \<in> set (zip u v)"
    then have "length x = length y" by (rule lengths_zip[OF l])
    then show "map2 (\<lambda>e n. (1 - 0) * e + 0 * n) x y = x"
      by (intro map2_left) auto
  qed
qed

lemma blend_1: 
  assumes "shape raw = shape noisy" shows "blend 1 raw noisy = noisy"
  unfolding blend_def
proof (rule map2_right[OF shape_length[OF assms]])
  fix u v assume uv: "(u, v) \<in> set (zip raw noisy)"
  have l: "map length u = map length v" by (rule shape_zip[OF assms uv])
  show "map2 (map2 (\<lambda>e n. (1 - 1) * e + 1 * n)) u v = v"
  proof (rule map2_right)
    show "length u = length v" using l by (metis length_map)
  next
    fix x y assume "(x, y) \<in> set (zip u v)"
    then have "length x = length y" by (rule lengths_zip[OF l])
    then show "map2 (\<lambda>e n. (1 - 1) * e + 1 * n) x y = y"
      by (intro map2_right) auto
  qed
qed

lemma get_estimate_whole_clip:
  assumes "\<not> streaming a" and "forward m noisy = Inr raw" and "shape raw = shape noisy"
  shows "get_estimate api m noisy a = Inr (blend (dry a) raw noisy)"
proof -
  have "shape (scale (1 - dry a) raw) = shape (scale (dry a) noisy)"
    using assms(3) by (simp add: scale_shape)
  then have "tensor_add (scale (1 - dry a) raw) (scale (dry a) noisy)
      = Inr (map2 (map2 (map2 (+))) (scale (1 - dry a) raw) (scale (dry a) noisy))"
    by (rule tensor_add_same_shape)
  then show ?thesis
    using assms(1,2) by (simp add: get_estimate_def map2_scale_add blend_def)
qed

text \<open>
  C3. Without streaming, when the model returns an estimate of the shape of its input,
  the estimator returns \<open>(1 - dry) * raw_estimate + dry * noisy\<close> for every \<open>dry\<close> in
  \<open>[0, 1]\<close>: the raw estimate itself for \<open>dry = 0\<close>, the noisy input itself for \<open>dry = 1\<close>.
\<close>

theorem get_estimate_blend:
  assumes "\<not> streaming a" and "0 \<le> dry a" and "dry a \<le> 1"
    and "forward m noisy = Inr raw" and "shape raw = shape noisy"
  shows "get_estimate api m noisy a = Inr (blend (dry a) raw noisy)
       \<and> (dry a = 0 \<longrightarrow> get_estimate api m noisy a = Inr raw)
       \<and> (dry a = 1 \<longrightarrow> get_estimate api m noisy a = Inr noisy)"
  using get_estimate_whole_clip[OF assms(1,4,5)] blend_0[OF assms(5)] blend_1[OF assms(5)]
  by auto


theorem get_estimate_blend_witness:
  "get_estimate example_api example_model [[[1, -2]]] (parser_defaults\<lparr>dry := 1 / 4\<rparr>)
     = Inr [[[5 / 8, - (5 / 4)]]]
   \<and> get_estimate example_api example_model [[[1, -2]]] (parser_defaults\<lparr>dry := 0\<rparr>)
     = Inr [[[1 / 2, -1]]]
   \<and> get_estimate example_api example_model [[[1, -2]]] (parser_defaults\<lparr>dry := 1\<rparr>)
     = Inr [[[1, -2]]]"
proof -
  have fw: "forward example_model [[[1, -2]]] = Inr [[[1 / 2, -1]]]"
    by (simp add: example_model_def scale_def)
  have sh: "shape [[[1 / 2, -1]]] = shape [[[1, -2]]]"
    by (simp add: shape_def)
  have a: "\<not> streaming (parser_defaults\<lparr>dry := d\<rparr>)" for d
    by (simp add: parser_defaults_def)
  have "get_estimate example_api example_model [[[1, -2]]] (parser_defaults\<lparr>dry := 1 / 4\<rparr>)
     = Inr (blend (1 / 4) [[[1 / 2, -1]]] [[[1, -2]]])"
    using get_estimate_blend[OF a _ _ fw sh, of "1 / 4" example_api] by simp
  moreover have "get_estimate example_api example_model [[[1, -2]]] (parser_defaults\<lparr>dry := 0\<rparr>)
     = Inr [[[1 / 2, -1]]]"
    using get_estimate_blend[OF a _ _ fw sh, of 0 example_api] by (simp add: blend_def)
  moreover have "get_estimate example_api example_model [[[1, -2]]] (parser_defaults\<lparr>dry := 1\<rparr>)
     = Inr [[[1, -2]]]"
    using get_estimate_blend[OF a _ _ fw sh, of 1 example_api] by (simp add: blend_def)
  ultimately show ?thesis by (simp add: blend_def)
qed

text \<open>
  C6. With streaming, the estimator returns, channel by channel, what feeding the
  waveform produced followed by what flushing produced. No blend is applied: \<open>dry\<close> and
  the model reach the result through the constructor of the streaming engine only.
\<close>

theorem get_estimate_streaming:
  assumes "streaming a" and "noisy = noisy0 # rest"
    and "feed api (DemucsStreamer api m (dry a)) noisy0 = Inr (fed, st)"
    and "flush api st = Inr (flushed, st')"
    and "length fed = length flushed"
  shows "get_estimate api m noisy a = Inr [map2 (@) fed flushed]
       \<and> (\<forall>m' a'. streaming a' \<and> DemucsStreamer api m' (dry a') = DemucsStreamer api m (dry a)
             \<longrightarrow> get_estimate api m' noisy a' = get_estimate api m noisy a)"
  using assms by (simp add: get_estimate_def cat_dim1_def)

theorem get_estimate_streaming_witness:
  "get_estimate example_api example_model [[[1, -2]]] (parser_defaults\<lparr>streaming := True, dry := 1 / 4\<rparr>)
     = Inr [[[1, -2, 0]]]
   \<and> get_estimate example_api (example_model\<lparr>forward := (\<lambda>t. Inl RuntimeError)\<rparr>) [[[1, -2]]]
        (parser_defaults\<lparr>streaming := True, dry := 1\<rparr>)
     = Inr [[[1, -2, 0]]]"
proof -
  let ?a = "parser_defaults\<lparr>streaming := True, dry := 1 / 4\<rparr>"
  have s: "streaming ?a" by (simp add: parser_defaults_def)
  have fd: "feed example_api (DemucsStreamer example_api example_model (dry ?a)) [[1, -2]] = Inr ([[1, -2]], Suc 0)"
    by (simp add: example_api_def)
  have fl: "flush example_api (Suc 0) = Inr ([[0]], Suc 0)"
    by (simp add: example_api_def)
  have len: "length [[1, -2 :: real]] = length [[0 :: real]]" by simp
  note t = get_estimate_streaming[OF s refl fd fl len, of "[]"]
  have c: "DemucsStreamer example_api (example_model\<lparr>forward := (\<lambda>t. Inl RuntimeError)\<rparr>)
             (dry (parser_defaults\<lparr>streaming := True, dry := 1\<rparr>))
           = DemucsStreamer example_api example_model (dry ?a)"
    by (simp add: example_api_def)
  have s': "streaming (parser_defaults\<lparr>streaming := True, dry := 1\<rparr>)" by (simp add: parser_defaults_def)
  from t c s' show ?thesis by simp
qed

subsection \<open>Writing a waveform\<close>

lemma abs_max_peak: "concat w \<noteq> [] \<Longrightarrow> abs_max w = Inr (peak_amplitude w)"
  by (simp add: abs_max_def peak_amplitude_def)

lemma concat_map_map: "concat (map (map g) w) = map g (concat w)"
  by (induction w) auto

lemma peak_scaled:
  assumes "concat w \<noteq> []" and "0 < c"
  shows "peak_amplitude (map (map (\<lambda>x. x / c)) w) = peak_amplitude w / c"
proof -
  let ?A = "abs ` set (concat w)"
  have fin: "finite ?A" and ne: "?A \<noteq> {}" using assms(1) by auto
  have m: "mono (\<lambda>y::real. y / c)"
    using assms(2) by (auto simp: mono_def divide_right_mono)
  have "abs ` set (concat (map (map (\<lambda>x. x / c)) w)) = (\<lambda>y. y / c) ` ?A"
    using assms(2) by (auto simp: concat_map_map image_image abs_divide intro!: image_eqI)
  then have "peak_amplitude (map (map (\<lambda>x. x / c)) w) = Max ((\<lambda>y. y / c) ` ?A)"
    by (simp add: peak_amplitude_def)
  also have "\<dots> = Max ?A / c"
    using mono_Max_commute[OF m fin ne] by simp
  finally show ?thesis by (simp add: peak_amplitude_def)
qed

lemma write_wav_succeeds:
  assumes "concat w \<noteq> []" and "resolve f filename \<noteq> []" and "resolve f filename \<notin> dirs f"
    and "butlast (resolve f filename) \<in> dirs f"
  shows "\<exists>f'. write_wav w filename sr f = Inr f'"
  using assms by (simp add: write_wav_def abs_max_peak torchaudio_save_def Let_def)

lemma resolve_ex: "resolve example_fs ''/out/a.wav'' = [''out'', ''a.wav'']"
  by (simp add: resolve_def example_fs_def abspath_def normpath_def startswith_sep_def is_sep_def normpath_step_def)


text \<open>
  C4. When \<^verbatim>\<open>write\<close> has stored a waveform that has a sample, the file holds the samples
  divided by \<open>max peak 1\<close> for the peak absolute amplitude of the input: the input
  itself for a peak of at most 1, and a waveform of peak exactly 1 for a peak above 1.
\<close>

theorem write_wav_normalizes:
  assumes "concat w \<noteq> []" and "write_wav w filename sr f = Inr f'"
  shows "\<exists>persisted. disk_files f' (resolve f filename) = Some (persisted, sr)
           \<and> persisted = map (map (\<lambda>x. x / max (peak_amplitude w) 1)) w
           \<and> (peak_amplitude w \<le> 1 \<longrightarrow> persisted = w)
           \<and> (1 < peak_amplitude w \<longrightarrow> peak_amplitude persisted = 1)"
proof -
  let ?p = "map (map (\<lambda>x. x / max (peak_amplitude w) 1)) w"
  from assms have sv: "torchaudio_save filename ?p sr f = Inr f'"
    by (simp add: write_wav_def abs_max_peak)
  then have "disk_files f' (resolve f filename) = Some (?p, sr)"
    by (auto simp: torchaudio_save_def Let_def split: if_splits)
  moreover have "peak_amplitude w \<le> 1 \<Longrightarrow> ?p = w"
    by (simp add: max_absorb2 map_idI)
  moreover have "1 < peak_amplitude w \<Longrightarrow> peak_amplitude ?p = 1"
  proof -
    assume gt: "1 < peak_amplitude w"
    then have "max (peak_amplitude w) 1 = peak_amplitude w" by simp
    moreover have "peak_amplitude (map (map (\<lambda>x. x / peak_amplitude w)) w) = peak_amplitude w / peak_amplitude w"
      using gt by (intro peak_scaled[OF assms(1)]) simp
    ultimately show ?thesis using gt by simp
  qed
  ultimately show ?thesis by blast
qed

theorem write_wav_normalizes_witness:
  "(\<exists>f'. write_wav [[2, -4]] ''/out/a.wav'' 16000 example_fs = Inr f'
        \<and> disk_files f' [''out'', ''a.wav''] = Some ([[1 / 2, -1]], 16000))
   \<and> peak_amplitude [[2, -4]] = 4 \<and> peak_amplitude [[1 / 2, -1]] = 1
   \<and> (\<exists>f'. write_wav [[1 / 4, - (1 / 2)]] ''/out/a.wav'' 16000 example_fs = Inr f'
        \<and> disk_files f' [''out'', ''a.wav''] = Some ([[1 / 4, - (1 / 2)]], 16000))"
proof -
  have ok: "resolve example_fs ''/out/a.wav'' \<noteq> []" "resolve example_fs ''/out/a.wav'' \<notin> dirs example_fs"
    "butlast (resolve example_fs ''/out/a.wav'') \<in> dirs example_fs"
    by (simp_all add: resolve_ex) (simp_all add: example_fs_def)
  have pk: "peak_amplitude [[2, -4]] = 4" "peak_amplitude [[1 / 4, - (1 / 2)]] = 1 / 2"
    by (simp_all add: peak_amplitude_def)
  have ne: "concat [[2, -4 :: real]] \<noteq> []" "concat [[1 / 4, - (1 / 2) :: real]] \<noteq> []" by simp_all
  obtain f1 where f1: "write_wav [[2, -4]] ''/out/a.wav'' 16000 example_fs = Inr f1"
    using write_wav_succeeds[OF ne(1) ok] by blast
  obtain f2 where f2: "write_wav [[1 / 4, - (1 / 2)]] ''/out/a.wav'' 16000 example_fs = Inr f2"
    using write_wav_succeeds[OF ne(2) ok] by blast
  from write_wav_normalizes[OF ne(1) f1]
  have loud: "disk_files f1 [''out'', ''a.wav''] = Some ([[1 / 2, -1]], 16000)
      \<and> peak_amplitude [[1 / 2, -1]] = 1"
    by (auto simp: pk resolve_ex)
  from write_wav_normalizes[OF ne(2) f2]
  have quiet: "disk_files f2 [''out'', ''a.wav''] = Some ([[1 / 4, - (1 / 2)]], 16000)"
    by (auto simp: pk resolve_ex)
  from f1 f2 loud quiet pk(1) show ?thesis by blast
qed

subsection \<open>Planning the output path\<close>

lemma join_prefix_ends: "join_prefix a = [] \<or> is_sep (last (join_prefix a))"
  by (auto simp: join_prefix_def endswith_sep_def is_sep_def)

lemma join_relative: "\<not> startswith_sep b \<Longrightarrow> join a b = join_prefix a @ b"
  by (simp add: join_def join_prefix_def)

lemma basename_append:
  assumes "a = [] \<or> is_sep (last a)"
  shows "basename (a @ b) = basename b"
proof (cases "\<exists>c \<in> set b. is_sep c")
  case True
  then obtain c where "c \<in> set (rev b)" "\<not> \<not> is_sep c" by auto
  then have "takeWhile (\<lambda>c. \<not> is_sep c) (rev b @ rev a) = takeWhile (\<lambda>c. \<not> is_sep c) (rev b)"
    by (rule takeWhile_append1)
  then show ?thesis
    unfolding basename_def by simp
next
  case False
  then have all: "\<And>c. c \<in> set (rev b) \<Longrightarrow> \<not> is_sep c" by simp
  have t1: "takeWhile (\<lambda>c. \<not> is_sep c) (rev a) = []"
  proof (cases "rev a")
    case Nil
    then show ?thesis by simp
  next
    case (Cons x xs)
    then have "a \<noteq> []" and "last a = x" by (auto simp: last_rev dest: arg_cong[where f=hd])
    with assms Cons show ?thesis by simp
  qed
  have t2: "takeWhile (\<lambda>c. \<not> is_sep c) (rev b @ rev a) = rev b @ takeWhile (\<lambda>c. \<not> is_sep c) (rev a)"
    using all by (rule takeWhile_append2)
  have t3: "takeWhile (\<lambda>c. \<not> is_sep c) (rev b) = rev b"
    by (rule takeWhile_eq_all_conv[THEN iffD2]) (use all in blast)
  show ?thesis
    unfolding basename_def rev_append t2 t1 t3 by simp
qed


lemma length_basename: "length (basename p) \<le> length p"
  unfolding basename_def by (metis length_rev length_takeWhile_le)

lemma length_ext_less:
  assumes "c \<in> set xs"
  shows "length (takeWhile (\<lambda>x. x \<noteq> c) (rev xs)) < length xs"
proof -
  have "takeWhile (\<lambda>x. x \<noteq> c) (rev xs) \<noteq> rev xs"
    using assms by (auto simp: takeWhile_eq_all_conv)
  moreover have "length (takeWhile (\<lambda>x. x \<noteq> c) (rev xs)) \<le> length (rev xs)"
    by (rule length_takeWhile_le)
  ultimately show ?thesis
    using takeWhile_eq_take[of "\<lambda>x. x \<noteq> c" "rev xs"] by (cases "length (takeWhile (\<lambda>x. x \<noteq> c) (rev xs)) = length (rev xs)") auto
qed

lemma splitext_append:
  assumes "a = [] \<or> is_sep (last a)"
  shows "splitext (a @ b) = (a @ fst (splitext b), snd (splitext b))"
proof -
  define e where "e = rev (takeWhile (\<lambda>c. c \<noteq> CHR ''.'') (rev (basename b)))"
  define ok where "ok \<longleftrightarrow> CHR ''.'' \<in> set (basename b)
      \<and> (\<exists>c \<in> set (take (length (basename b) - length e - 1) (basename b)). c \<noteq> CHR ''.'')"
  have bn: "basename (a @ b) = basename b" by (rule basename_append[OF assms])
  have sb: "splitext b = (if ok then (take (length b - length e - 1) b, CHR ''.'' # e) else (b, []))"
    unfolding splitext_def Let_def e_def ok_def by (rule refl)
  have sab: "splitext (a @ b) =
      (if ok then (take (length (a @ b) - length e - 1) (a @ b), CHR ''.'' # e) else (a @ b, []))"
    unfolding splitext_def bn Let_def e_def ok_def by (rule refl)
  show ?thesis
  proof (cases ok)
    case True
    then have "CHR ''.'' \<in> set (basename b)" by (simp add: ok_def)
    then have "length e < length (basename b)" unfolding e_def by (simp add: length_ext_less)
    with length_basename[of b] have "length e + 1 \<le> length b" by simp
    then have "take (length (a @ b) - length e - 1) (a @ b) = a @ take (length b - length e - 1) b"
      by simp
    with True show ?thesis by (simp only: sb sab if_True fst_conv snd_conv)
  next
    case False
    then show ?thesis by (simp only: sb sab if_False fst_conv snd_conv)
  qed
qed

lemma fst_splitext_take: "\<exists>k. fst (splitext p) = take k p"
proof -
  define e where "e = rev (takeWhile (\<lambda>c. c \<noteq> CHR ''.'') (rev (basename p)))"
  define ok where "ok \<longleftrightarrow> CHR ''.'' \<in> set (basename p)
      \<and> (\<exists>c \<in> set (take (length (basename p) - length e - 1) (basename p)). c \<noteq> CHR ''.'')"
  have sp: "splitext p = (if ok then (take (length p - length e - 1) p, CHR ''.'' # e) else (p, []))"
    unfolding splitext_def Let_def e_def ok_def by (rule refl)
  show ?thesis
  proof (cases ok)
    case True
    then have "fst (splitext p) = take (length p - length e - 1) p"
      by (simp only: sp if_True fst_conv)
    then show ?thesis by (rule exI)
  next
    case False
    then have "fst (splitext p) = take (length p) p"
      by (simp only: sp if_False fst_conv take_all order_refl)
    then show ?thesis by (rule exI)
  qed
qed

lemma startswith_sep_take_append:
  assumes "\<not> startswith_sep b" and "\<not> startswith_sep c" 
  shows "\<not> startswith_sep (take k b @ c)"
  using assms by (cases b; cases k) (auto simp: startswith_sep_def)

lemma dot_wav_relative: "\<not> startswith_sep ''.wav''"
  by (simp add: startswith_sep_def is_sep_def)

lemma replace_ext_join:
  assumes "\<not> startswith_sep rel"
  shows "fst (splitext (join a rel)) @ ''.wav'' = join a (replace_ext rel)"
proof -
  obtain k where k: "fst (splitext rel) = take k rel" using fst_splitext_take by blast
  have "\<not> startswith_sep (replace_ext rel)"
    unfolding replace_ext_def k by (rule startswith_sep_take_append[OF assms dot_wav_relative])
  then have "join a (replace_ext rel) = join_prefix a @ fst (splitext rel) @ ''.wav''"
    by (simp add: join_relative replace_ext_def)
  moreover have "fst (splitext (join a rel)) = join_prefix a @ fst (splitext rel)"
    by (simp add: join_relative[OF assms] splitext_append[OF join_prefix_ends])
  ultimately show ?thesis by simp
qed


lemma split_sep_nonempty: "split_sep p \<noteq> []"
  by (induction p) (auto split: list.splits)

lemma split_sep_no_sep: "x \<in> set (split_sep p) \<Longrightarrow> c \<in> set x \<Longrightarrow> \<not> is_sep c"
proof (induction p arbitrary: x)
  case Nil
  then show ?case by simp
next
  case (Cons d p)
  show ?case
  proof (cases "is_sep d")
    case True
    with Cons show ?thesis by auto
  next
    case False
    obtain y ys where sp: "split_sep p = y # ys"
      using split_sep_nonempty[of p] by (cases "split_sep p") auto
    with False Cons.prems have "x = d # y \<or> x \<in> set ys" by auto
    then show ?thesis
    proof
      assume "x = d # y"
      with Cons.prems(2) have "c = d \<or> c \<in> set y" by auto
      then show ?thesis using False Cons.IH[of y] sp by auto
    next
      assume "x \<in> set ys"
      then show ?thesis using Cons.IH[of x] Cons.prems(2) sp by auto
    qed
  qed
qed

lemma component_relative:
  assumes "x \<in> set (filter (\<lambda>x. x \<noteq> []) (split_sep p))"
  shows "x \<noteq> [] \<and> \<not> startswith_sep x"
proof -
  from assms have ne: "x \<noteq> []" and mem: "x \<in> set (split_sep p)" by auto
  then have "\<not> is_sep (hd x)" using split_sep_no_sep[OF mem, of "hd x"] by simp
  with ne show ?thesis by (cases x) (auto simp: startswith_sep_def)
qed

lemma foldl_join_extends:
  "(\<And>x. x \<in> set cs \<Longrightarrow> \<not> startswith_sep x) \<Longrightarrow> \<exists>t. foldl join c cs = c @ t"
proof (induction cs arbitrary: c)
  case Nil
  then show ?case by simp
next
  case (Cons x cs)
  then have "\<not> startswith_sep x" by simp
  then have j: "join c x = join_prefix c @ x" by (rule join_relative)
  obtain u where u: "join c x = c @ u"
    unfolding j join_prefix_def by (cases "c = [] \<or> endswith_sep c") auto
  from Cons obtain t where "foldl join (join c x) cs = join c x @ t" by fastforce
  then show ?case by (simp add: u)
qed

lemma relpath_total: "path \<noteq> [] \<Longrightarrow> \<exists>rel. relpath wd path start = Inr rel"
  unfolding relpath_def Let_def by (simp split: list.split)

lemma relpath_relative:
  assumes "relpath wd path start = Inr rel"
  shows "\<not> startswith_sep rel"
proof -
  define start_list where "start_list = filter (\<lambda>x. x \<noteq> []) (split_sep (abspath wd start))"
  define path_list where "path_list = filter (\<lambda>x. x \<noteq> []) (split_sep (abspath wd path))"
  define i where "i = length (commonprefix start_list path_list)"
  define rel_list where "rel_list = replicate (length start_list - i) ''..'' @ drop i path_list"
  have r: "(case rel_list of [] \<Rightarrow> Inr ''.'' | c # cs \<Rightarrow> Inr (foldl join c cs)) = (Inr rel :: error + string)"
  proof -
    have "path \<noteq> []" using assms by (auto simp: relpath_def)
    with assms show ?thesis
      unfolding relpath_def Let_def rel_list_def i_def path_list_def start_list_def
      by (simp only: if_False)
  qed
  have comp: "x \<noteq> [] \<and> \<not> startswith_sep x" if "x \<in> set rel_list" for x
  proof -
    from that have "x = ''..'' \<or> x \<in> set path_list"
      unfolding rel_list_def by (auto dest: in_set_dropD)
    then show ?thesis
    proof
      assume "x = ''..''"
      then show ?thesis by (simp add: startswith_sep_def is_sep_def)
    next
      assume "x \<in> set path_list"
      then show ?thesis unfolding path_list_def by (rule component_relative)
    qed
  qed
  show ?thesis
  proof (cases rel_list)
    case Nil
    with r have "rel = ''.''" by simp
    then show ?thesis by (simp add: startswith_sep_def is_sep_def)
  next
    case (Cons c cs)
    with r have rel: "rel = foldl join c cs" by simp
    have "\<And>x. x \<in> set cs \<Longrightarrow> \<not> startswith_sep x" using comp Cons by simp
    then obtain t where "foldl join c cs = c @ t" using foldl_join_extends by blast
    moreover have "c \<noteq> [] \<and> \<not> startswith_sep c" using comp Cons by simp
    ultimately show ?thesis unfolding rel by (cases c) (auto simp: startswith_sep_def)
  qed
qed


lemma output_path_root:
  assumes "truthy input_root" and "filename \<noteq> []"
  shows "\<exists>rel. relpath (cwd f) filename (the input_root) = Inr rel
           \<and> output_path f out filename input_root = Inr (join out (replace_ext rel))"
proof -
  from relpath_total[OF assms(2)] obtain rel
    where rel: "relpath (cwd f) filename (the input_root) = Inr rel" by blast
  have "fst (splitext (join out rel)) @ ''.wav'' = join out (replace_ext rel)"
    by (rule replace_ext_join[OF relpath_relative[OF rel]])
  with rel assms(1) show ?thesis by (simp add: output_path_def)
qed

lemma rsplit_dot_0_stem:
  assumes "CHR ''.'' \<notin> set ext"
  shows "rsplit_dot_0 (stem @ CHR ''.'' # ext) = stem"
proof -
  have "dropWhile (\<lambda>c. c \<noteq> CHR ''.'') (rev ext @ CHR ''.'' # rev stem)
      = dropWhile (\<lambda>c. c \<noteq> CHR ''.'') (CHR ''.'' # rev stem)"
    by (rule dropWhile_append2) (use assms in auto)
  then show ?thesis by (simp add: rsplit_dot_0_def)
qed

lemma output_path_basename:
  assumes "\<not> truthy input_root"
  shows "(CHR ''.'' \<notin> set (basename filename)
            \<longrightarrow> output_path f out filename input_root = Inr (join out (basename filename @ ''.wav'')))
       \<and> (\<forall>stem ext. basename filename = stem @ ''.'' @ ext \<and> CHR ''.'' \<notin> set ext
            \<longrightarrow> output_path f out filename input_root = Inr (join out (stem @ ''.wav'')))"
proof (intro conjI impI allI)
  assume "CHR ''.'' \<notin> set (basename filename)"
  with assms show "output_path f out filename input_root = Inr (join out (basename filename @ ''.wav''))"
    by (simp add: output_path_def rsplit_dot_0_def)
next
  fix stem ext
  assume "basename filename = stem @ ''.'' @ ext \<and> CHR ''.'' \<notin> set ext"
  then have "rsplit_dot_0 (basename filename) = stem"
    using rsplit_dot_0_stem[of ext stem] by simp
  with assms show "output_path f out filename input_root = Inr (join out (stem @ ''.wav''))"
    by (simp add: output_path_def)
qed

lemma mem_prefixes_of: "xs \<in> set (prefixes_of xs)"
  by (induction xs) auto

lemma makedirs_creates:
  assumes "makedirs name f = Inr f1"
  shows "resolve f name \<in> dirs f1 \<and> cwd f1 = cwd f \<and> disk_files f1 = disk_files f \<and> dirs f \<subseteq> dirs f1"
  using assms mem_prefixes_of[of "resolve f name"]
  by (auto simp: makedirs_def split: if_splits)

lemma torchaudio_save_stores:
  assumes "torchaudio_save filename w sr f = Inr f2"
  shows "disk_files f2 = (disk_files f)(resolve f filename \<mapsto> (w, sr)) \<and> dirs f2 = dirs f \<and> cwd f2 = cwd f"
  using assms by (auto simp: torchaudio_save_def Let_def split: if_splits)

lemma write_wav_stores:
  assumes "write_wav w filename sr f = Inr f2"
  shows "(\<exists>v. disk_files f2 = (disk_files f)(resolve f filename \<mapsto> (v, sr))) \<and> dirs f2 = dirs f \<and> cwd f2 = cwd f"
  using assms torchaudio_save_stores
  by (fastforce simp: write_wav_def split: sum.splits)

lemma resolve_cwd: "cwd f1 = cwd f \<Longrightarrow> resolve f1 p = resolve f p"
  by (simp add: resolve_def)

lemma save_wavs_single:
  assumes "save_wavs [estimate] [noisy] [filename] out input_root sr f = (Inr (), f')"
  shows "\<exists>path f1. output_path f out filename input_root = Inr path
           \<and> (if truthy input_root then makedirs (dirname path) f else Inr f) = Inr f1
           \<and> write_wav estimate path sr f1 = Inr f'"
  using assms by (auto split: sum.splits)

lemma save_wavs_creates_directory:
  assumes "truthy input_root"
    and "save_wavs [estimate] [noisy] [filename] out input_root sr f = (Inr (), f')"
  shows "\<exists>path. output_path f out filename input_root = Inr path
           \<and> resolve f (dirname path) \<in> dirs f'
           \<and> (\<exists>v. disk_files f' (resolve f path) = Some (v, sr))"
proof -
  from save_wavs_single[OF assms(2)] assms(1) obtain path f1
    where p: "output_path f out filename input_root = Inr path"
      and m: "makedirs (dirname path) f = Inr f1"
      and w: "write_wav estimate path sr f1 = Inr f'" by auto
  from makedirs_creates[OF m] have d: "resolve f (dirname path) \<in> dirs f1" and c: "cwd f1 = cwd f" by auto
  from write_wav_stores[OF w] obtain v
    where "disk_files f' = (disk_files f1)(resolve f1 path \<mapsto> (v, sr))" and "dirs f' = dirs f1" by auto
  with d resolve_cwd[OF c] p show ?thesis by auto
qed


lemma commonprefix_append: "commonprefix rs (rs @ cs) = rs"
  by (induction rs) auto

lemma join_sep_snoc: "ds \<noteq> [] \<Longrightarrow> join_sep (ds @ [x]) = join_sep ds @ ''/'' @ x"
proof (induction ds)
  case Nil
  then show ?case by simp
next
  case (Cons d ds)
  then show ?case by (cases ds) auto
qed

lemma foldl_join_join_sep:
  assumes "acc \<noteq> []" and "\<not> endswith_sep acc"
    and "\<And>x. x \<in> set xs \<Longrightarrow> x \<noteq> [] \<and> (\<forall>c \<in> set x. \<not> is_sep c)"
  shows "foldl join acc xs = join_sep (acc # xs)"
  using assms
proof (induction xs arbitrary: acc)
  case Nil
  then show ?case by simp
next
  case (Cons x xs)
  from Cons.prems(3)[of x] have x: "x \<noteq> []" "\<forall>c \<in> set x. \<not> is_sep c" by auto
  then have rel: "\<not> startswith_sep x" by (cases x) (auto simp: startswith_sep_def)
  have j: "join acc x = acc @ ''/'' @ x"
    using rel Cons.prems(1,2) by (simp add: join_def)
  have ne: "join acc x \<noteq> []" using j by simp
  have "last (join acc x) = last x" using x(1) by (simp add: j)
  then have ns: "\<not> endswith_sep (join acc x)"
    using x by (simp add: endswith_sep_def)
  have "foldl join (join acc x) xs = join_sep (join acc x # xs)"
    by (rule Cons.IH[OF ne ns]) (use Cons.prems(3) in auto)
  also have "\<dots> = join_sep (acc # x # xs)"
    by (cases xs) (simp_all add: j)
  finally show ?case by simp
qed

lemma resolve_component:
  assumes "x \<in> set (resolve f p)"
  shows "x \<noteq> [] \<and> (\<forall>c \<in> set x. \<not> is_sep c)"
proof -
  from assms have "x \<noteq> []" and "x \<in> set (split_sep (abspath (cwd f) p))"
    by (auto simp: resolve_def)
  then show ?thesis using split_sep_no_sep by blast
qed

lemma relpath_below:
  assumes "filename \<noteq> []" and "cs \<noteq> []"
    and "resolve f filename = resolve f start @ cs"
  shows "relpath (cwd f) filename start = Inr (join_sep cs)"
proof -
  obtain c cs' where cs: "cs = c # cs'" using assms(2) by (cases cs) auto
  have comp: "x \<noteq> [] \<and> (\<forall>c \<in> set x. \<not> is_sep c)" if "x \<in> set cs" for x
    using that resolve_component[of x f filename] assms(3) by simp
  have c: "c \<noteq> []" "\<not> endswith_sep c"
    using comp[of c] cs by (auto simp: endswith_sep_def)
  have fj: "foldl join c cs' = join_sep (c # cs')"
    by (rule foldl_join_join_sep[OF c]) (use comp cs in auto)
  have "relpath (cwd f) filename start =
     (case replicate (length (resolve f start) - length (commonprefix (resolve f start) (resolve f filename))) ''..''
            @ drop (length (commonprefix (resolve f start) (resolve f filename))) (resolve f filename) of
        [] \<Rightarrow> Inr ''.''
      | c # cs \<Rightarrow> Inr (foldl join c cs))"
    using assms(1) unfolding relpath_def resolve_def Let_def by (simp only: if_False)
  also have "\<dots> = Inr (foldl join c cs')"
    unfolding assms(3) commonprefix_append by (simp add: cs)
  finally show ?thesis by (simp add: fj cs)
qed

lemma replace_ext_join_sep: "replace_ext (join_sep (ds @ [name])) = join_sep (ds @ [replace_ext name])"
proof (cases "ds = []")
  case True
  then show ?thesis by simp
next
  case False
  have "splitext ((join_sep ds @ ''/'') @ name) = ((join_sep ds @ ''/'') @ fst (splitext name), snd (splitext name))"
    by (rule splitext_append) (simp add: is_sep_def)
  then show ?thesis
    using False by (simp add: join_sep_snoc replace_ext_def)
qed

lemma output_path_below_root:
  assumes "truthy input_root" and "filename \<noteq> []"
    and "resolve f filename = resolve f (the input_root) @ ds @ [name]"
  shows "output_path f out filename input_root = Inr (join out (join_sep (ds @ [replace_ext name])))"
proof -
  have "relpath (cwd f) filename (the input_root) = Inr (join_sep (ds @ [name]))"
    by (rule relpath_below[OF assms(2)]) (use assms(3) in auto)
  with output_path_root[OF assms(1,2), of f out] show ?thesis
    by (simp add: replace_ext_join_sep)
qed

lemma splitext_stem_ext:
  assumes "\<forall>c \<in> set stem. \<not> is_sep c" and "\<exists>c \<in> set stem. c \<noteq> CHR ''.''"
    and "\<forall>c \<in> set ext. \<not> is_sep c \<and> c \<noteq> CHR ''.''"
  shows "splitext (stem @ ''.'' @ ext) = (stem, ''.'' @ ext)"
proof -
  let ?n = "stem @ ''.'' @ ext"
  have bn: "basename ?n = ?n"
  proof -
    have t: "takeWhile (\<lambda>c. \<not> is_sep c) (rev ?n) = rev ?n"
      by (rule takeWhile_eq_all_conv[THEN iffD2]) (use assms in \<open>auto simp: is_sep_def\<close>)
    show ?thesis by (simp only: basename_def t rev_rev_ident)
  qed
  have e: "takeWhile (\<lambda>c. c \<noteq> CHR ''.'') (rev ?n) = rev ext"
  proof -
    have "takeWhile (\<lambda>c. c \<noteq> CHR ''.'') (rev ext @ CHR ''.'' # rev stem)
        = rev ext @ takeWhile (\<lambda>c. c \<noteq> CHR ''.'') (CHR ''.'' # rev stem)"
      by (rule takeWhile_append2) (use assms(3) in auto)
    then show ?thesis by simp
  qed
  show ?thesis
    unfolding splitext_def bn Let_def e using assms(2) by simp
qed


lemma replace_ext_stem_ext:
  assumes "\<forall>c \<in> set stem. \<not> is_sep c" and "\<exists>c \<in> set stem. c \<noteq> CHR ''.''"
    and "\<forall>c \<in> set ext. \<not> is_sep c \<and> c \<noteq> CHR ''.''"
  shows "replace_ext (stem @ ''.'' @ ext) = stem @ ''.wav''"
  unfolding replace_ext_def splitext_stem_ext[OF assms] by simp

lemmas path_defs =
  is_sep_def startswith_sep_def endswith_sep_def join_def basename_def dirname_def splitext_def
  rsplit_dot_0_def normpath_step_def normpath_def abspath_def relpath_def resolve_def

lemma ex_resolve: "resolve example_fs ''/in/sub/x.flac'' = resolve example_fs ''/in'' @ [''sub''] @ [''x.flac'']"
  by (simp add: path_defs example_fs_def)

lemma ex_replace: "replace_ext ''x.flac'' = ''x.wav''"
  by (simp add: replace_ext_def path_defs)

lemma ex_save: "save_wavs [[[2, -4]]] [[[2, -4]]] [''/in/sub/x.flac''] ''/out'' (Some ''/in'') 16000 example_fs
     = (Inr (), example_fs\<lparr>dirs := dirs example_fs \<union> {[''out'', ''sub'']},
          disk_files := [[''out'', ''sub'', ''x.wav''] \<mapsto> ([[1 / 2, -1]], 16000)]\<rparr>)"
  by (simp add: output_path_def truthy_def path_defs example_fs_def makedirs_def write_wav_def abs_max_def
      torchaudio_save_def Let_def insert_commute)


text \<open>
  C5. With an input root, the path planned for a file name is \<^verbatim>\<open>out_dir\<close> joined with
  the path of the file relative to the root, its extension replaced by \<^verbatim>\<open>.wav\<close>: a file
  that lies below the root in the directories \<open>ds\<close> is planned below \<^verbatim>\<open>out_dir\<close> in the
  same directories, and once \<^verbatim>\<open>save_wavs\<close> has returned, the directory of the planned
  path exists and the file is in it. Without an input root, the path is \<^verbatim>\<open>out_dir\<close>
  joined with the basename of the file, what follows its last dot replaced by \<^verbatim>\<open>wav\<close>,
  whatever directories the file name has.
\<close>

theorem output_path_planned:
  "(truthy input_root \<and> filename \<noteq> [] \<longrightarrow>
      (\<exists>rel. relpath (cwd f) filename (the input_root) = Inr rel
         \<and> output_path f out filename input_root = Inr (join out (replace_ext rel)))
    \<and> (\<forall>ds name. resolve f filename = resolve f (the input_root) @ ds @ [name]
         \<longrightarrow> output_path f out filename input_root = Inr (join out (join_sep (ds @ [replace_ext name]))))
    \<and> (\<forall>estimate noisy sr f'.
          save_wavs [estimate] [noisy] [filename] out input_root sr f = (Inr (), f')
         \<longrightarrow> (\<exists>path. output_path f out filename input_root = Inr path
                \<and> resolve f (dirname path) \<in> dirs f'
                \<and> (\<exists>v. disk_files f' (resolve f path) = Some (v, sr)))))
   \<and> (\<not> truthy input_root \<longrightarrow>
        (CHR ''.'' \<notin> set (basename filename)
           \<longrightarrow> output_path f out filename input_root = Inr (join out (basename filename @ ''.wav'')))
      \<and> (\<forall>stem ext. basename filename = stem @ ''.'' @ ext \<and> CHR ''.'' \<notin> set ext
           \<longrightarrow> output_path f out filename input_root = Inr (join out (stem @ ''.wav''))))"
proof (intro conjI impI allI)
  assume "truthy input_root \<and> filename \<noteq> []"
  then show "\<exists>rel. relpath (cwd f) filename (the input_root) = Inr rel
         \<and> output_path f out filename input_root = Inr (join out (replace_ext rel))"
    using output_path_root by blast
next
  fix ds name
  assume "truthy input_root \<and> filename \<noteq> []"
    and "resolve f filename = resolve f (the input_root) @ ds @ [name]"
  then show "output_path f out filename input_root = Inr (join out (join_sep (ds @ [replace_ext name])))"
    using output_path_below_root by blast
next
  fix estimate noisy sr f'
  assume "truthy input_root \<and> filename \<noteq> []"
    and "save_wavs [estimate] [noisy] [filename] out input_root sr f = (Inr (), f')"
  then show "\<exists>path. output_path f out filename input_root = Inr path
                \<and> resolve f (dirname path) \<in> dirs f'
                \<and> (\<exists>v. disk_files f' (resolve f path) = Some (v, sr))"
    using save_wavs_creates_directory by blast
next
  assume "\<not> truthy input_root" and "CHR ''.'' \<notin> set (basename filename)"
  then show "output_path f out filename input_root = Inr (join out (basename filename @ ''.wav''))"
    using output_path_basename by blast
next
  fix stem ext
  assume "\<not> truthy input_root"
    and "basename filename = stem @ ''.'' @ ext \<and> CHR ''.'' \<notin> set ext"
  then show "output_path f out filename input_root = Inr (join out (stem @ ''.wav''))"
    using output_path_basename by blast
qed

theorem output_path_planned_witness:
  "output_path example_fs ''/out'' ''/in/sub/x.flac'' (Some ''/in'') = Inr ''/out/sub/x.wav''
   \<and> (\<exists>f'. save_wavs [[[2, -4]]] [[[2, -4]]] [''/in/sub/x.flac''] ''/out'' (Some ''/in'') 16000 example_fs
              = (Inr (), f')
          \<and> [''out'', ''sub''] \<in> dirs f'
          \<and> (\<exists>v. disk_files f' [''out'', ''sub'', ''x.wav''] = Some (v, 16000)))
   \<and> output_path example_fs ''/out'' ''/in/sub/x.flac'' None = Inr ''/out/x.wav''"
proof -
  note t = output_path_planned[of "Some ''/in''" "''/in/sub/x.flac''" example_fs "''/out''"]
  note u = output_path_planned[of None "''/in/sub/x.flac''" example_fs "''/out''"]
  have tr: "truthy (Some ''/in'') \<and> ''/in/sub/x.flac'' \<noteq> []" by (simp add: truthy_def)
  from t tr have A: "\<forall>ds name. resolve example_fs ''/in/sub/x.flac''
        = resolve example_fs (the (Some ''/in'')) @ ds @ [name]
      \<longrightarrow> output_path example_fs ''/out'' ''/in/sub/x.flac'' (Some ''/in'')
        = Inr (join ''/out'' (join_sep (ds @ [replace_ext name])))"
    by blast
  have "output_path example_fs ''/out'' ''/in/sub/x.flac'' (Some ''/in'')
        = Inr (join ''/out'' (join_sep ([''sub''] @ [replace_ext ''x.flac''])))"
    using A[rule_format, of "[''sub'']" "''x.flac''"] ex_resolve by simp
  then have p1: "output_path example_fs ''/out'' ''/in/sub/x.flac'' (Some ''/in'') = Inr ''/out/sub/x.wav''"
    by (simp add: ex_replace join_def startswith_sep_def endswith_sep_def is_sep_def)
  from t tr have B: "\<forall>estimate noisy sr f'.
        save_wavs [estimate] [noisy] [''/in/sub/x.flac''] ''/out'' (Some ''/in'') sr example_fs = (Inr (), f')
      \<longrightarrow> (\<exists>path. output_path example_fs ''/out'' ''/in/sub/x.flac'' (Some ''/in'') = Inr path
            \<and> resolve example_fs (dirname path) \<in> dirs f'
            \<and> (\<exists>v. disk_files f' (resolve example_fs path) = Some (v, sr)))"
    by blast
  have r1: "resolve example_fs (dirname ''/out/sub/x.wav'') = [''out'', ''sub'']"
    by (simp add: path_defs example_fs_def)
  have r2: "resolve example_fs ''/out/sub/x.wav'' = [''out'', ''sub'', ''x.wav'']"
    by (simp add: path_defs example_fs_def)
  from B[rule_format, OF ex_save] p1 r1 r2
  have p2: "\<exists>f'. save_wavs [[[2, -4]]] [[[2, -4]]] [''/in/sub/x.flac''] ''/out'' (Some ''/in'') 16000 example_fs
              = (Inr (), f')
          \<and> [''out'', ''sub''] \<in> dirs f'
          \<and> (\<exists>v. disk_files f' [''out'', ''sub'', ''x.wav''] = Some (v, 16000))"
    using ex_save by auto
  have bn: "basename ''/in/sub/x.flac'' = ''x'' @ ''.'' @ ''flac'' \<and> CHR ''.'' \<notin> set ''flac''"
    by (simp add: path_defs)
  have "\<not> truthy None" by (simp add: truthy_def)
  with u have "\<forall>stem ext. basename ''/in/sub/x.flac'' = stem @ ''.'' @ ext \<and> CHR ''.'' \<notin> set ext
      \<longrightarrow> output_path example_fs ''/out'' ''/in/sub/x.flac'' None = Inr (join ''/out'' (stem @ ''.wav''))"
    by blast
  from this[rule_format, OF bn]
  have p3: "output_path example_fs ''/out'' ''/in/sub/x.flac'' None = Inr ''/out/x.wav''"
    by (simp add: join_def startswith_sep_def endswith_sep_def is_sep_def)
  from p1 p2 p3 show ?thesis by blast
qed

subsection \<open>The scheduler and the pool\<close>

lemma dispatch_submit:
  assumes "pooled a"
  shows "enhance_dispatch api m out a (Inr b # rest) pendings (pool, f)
       = enhance_dispatch api m out a rest (pendings @ [length (work pool)])
           (pool\<lparr>work := work pool @ [work_unit m out a b]\<rparr>, f)"
  using assms by (cases b) (simp add: pooled_def submit_def work_unit_def)

lemma dispatch_inline:
  assumes "\<not> pooled a"
  shows "enhance_dispatch api m out a (Inr b # rest) pendings (pool, f)
       = (case estimate_and_save api (work_unit m out a b) f of
            (Inl e, f') \<Rightarrow> (Inl e, pool, f')
          | (Inr u, f') \<Rightarrow> enhance_dispatch api m out a rest pendings (pool, f'))"
  using assms
  by (cases b) (auto simp: pooled_def estimate_and_save_def work_unit_def split: sum.splits prod.splits)

lemma dispatch_all_submitted:
  assumes "pooled a"
  shows "enhance_dispatch api m out a (map Inr bs) pendings (pool, f)
       = (Inr (pendings @ [length (work pool) ..< length (work pool) + length bs]),
          pool\<lparr>work := work pool @ map (work_unit m out a) bs\<rparr>, f)"
proof (induction bs arbitrary: pendings pool)
  case Nil
  then show ?case by simp
next
  case (Cons b bs)
  have "[length (work pool) ..< length (work pool) + length (b # bs)]
      = length (work pool) # [Suc (length (work pool)) ..< Suc (length (work pool)) + length bs]"
    using upt_conv_Cons[of "length (work pool)" "length (work pool) + length (b # bs)"] by simp
  moreover have "enhance_dispatch api m out a (map Inr (b # bs)) pendings (pool, f)
      = (Inr ((pendings @ [length (work pool)])
           @ [Suc (length (work pool)) ..< Suc (length (work pool)) + length bs]),
         pool\<lparr>work := work pool @ work_unit m out a b # map (work_unit m out a) bs\<rparr>, f)"
    using Cons.IH[of "pendings @ [length (work pool)]" "pool\<lparr>work := work pool @ [work_unit m out a b]\<rparr>"]
    by (simp add: dispatch_submit[OF assms] del: enhance_dispatch.simps upt_Suc)
  ultimately show ?case by simp
qed


lemma dispatch_inline_keeps_pool:
  assumes "\<not> pooled a"
    and "enhance_dispatch api m out a batches pendings (pool, f) = (r, pool', f')"
  shows "pool' = pool \<and> (\<forall>ps. r = Inr ps \<longrightarrow> ps = pendings)"
  using assms(2)
proof (induction batches arbitrary: f)
  case Nil
  then show ?case by auto
next
  case (Cons x batches)
  show ?case
  proof (cases x)
    case (Inl e)
    with Cons.prems show ?thesis by auto
  next
    case (Inr b)
    show ?thesis
    proof (cases "estimate_and_save api (work_unit m out a b) f")
      case (Pair q f1)
      show ?thesis
      proof (cases q)
        case (Inl e)
        with Pair Inr Cons.prems show ?thesis
          by (auto simp: dispatch_inline[OF assms(1)] simp del: enhance_dispatch.simps)
      next
        case (Inr u)
        with Pair \<open>x = Inr b\<close> Cons.prems
        have "enhance_dispatch api m out a batches pendings (pool, f1) = (r, pool', f')"
          by (simp add: dispatch_inline[OF assms(1)] del: enhance_dispatch.simps)
        then show ?thesis by (rule Cons.IH)
      qed
    qed
  qed
qed

lemma pool_size: "0 < n \<Longrightarrow> ProcessPoolExecutor n = Inr \<lparr>max_workers = n, work = [], outcomes = []\<rparr>"
  by (simp add: ProcessPoolExecutor_def)

lemma run_jobs_append:
  "run_jobs api (xs @ ys) (os, f) = run_jobs api ys (run_jobs api xs (os, f))"
  by (induction xs arbitrary: os f) (auto split: prod.splits)

lemma run_jobs_single:
  "run_jobs api [j] (os, f) = (os @ [fst (estimate_and_save api j f)], snd (estimate_and_save api j f))"
  by (simp split: prod.splits)

lemma run_jobs_prefix:
  "fst (run_jobs api js (os, f)) = os @ fst (run_jobs api js ([], f))
   \<and> snd (run_jobs api js (os, f)) = snd (run_jobs api js ([], f))"
proof (induction js arbitrary: os f)
  case Nil
  then show ?case by simp
next
  case (Cons j js)
  obtain r f1 where e: "estimate_and_save api j f = (r, f1)" by (cases "estimate_and_save api j f")
  have a: "fst (run_jobs api js (os @ [r], f1)) = (os @ [r]) @ fst (run_jobs api js ([], f1))"
    and b: "snd (run_jobs api js (os @ [r], f1)) = snd (run_jobs api js ([], f1))"
    using Cons.IH[of "os @ [r]" f1] by auto
  have c: "fst (run_jobs api js ([r], f1)) = [r] @ fst (run_jobs api js ([], f1))"
    and d: "snd (run_jobs api js ([r], f1)) = snd (run_jobs api js ([], f1))"
    using Cons.IH[of "[r]" f1] by auto
  show ?case by (simp add: e a b c d)
qed

lemma length_run_jobs: "length (fst (run_jobs api js (os, f))) = length os + length js"
  by (induction js arbitrary: os f) (auto split: prod.splits)

lemma advance_next:
  assumes "length (outcomes pool) < length (work pool)"
  shows "advance api (Suc (length (outcomes pool))) (pool, f)
       = (pool\<lparr>outcomes := outcomes pool @ [fst (estimate_and_save api (work pool ! length (outcomes pool)) f)]\<rparr>,
          snd (estimate_and_save api (work pool ! length (outcomes pool)) f))"
proof -
  have "take (Suc (length (outcomes pool)) - length (outcomes pool)) (drop (length (outcomes pool)) (work pool))
      = [work pool ! length (outcomes pool)]"
    using assms by (simp add: take_Suc_conv_app_nth Suc_diff_le hd_drop_conv_nth take_Suc)
  then show ?thesis
    unfolding advance_def by (simp add: run_jobs_single del: run_jobs.simps)
qed

lemma result_next:
  assumes "length (outcomes pool) < length (work pool)"
  shows "result api (length (outcomes pool)) (pool, f)
       = (fst (estimate_and_save api (work pool ! length (outcomes pool)) f),
          pool\<lparr>outcomes := outcomes pool @ [fst (estimate_and_save api (work pool ! length (outcomes pool)) f)]\<rparr>,
          snd (estimate_and_save api (work pool ! length (outcomes pool)) f))"
  unfolding result_def advance_next[OF assms] by simp


lemma upt_next: "k < n \<Longrightarrow> [k..<n] = k # [Suc k..<n]"
  by (rule upt_conv_Cons)

lemma drop_next: "k < length js \<Longrightarrow> drop k js = js ! k # drop (Suc k) js"
  by (rule Cons_nth_drop_Suc[symmetric])

lemma run_jobs_Cons:
  "run_jobs api (j # js) ([], f)
     = (fst (estimate_and_save api j f) # fst (run_jobs api js ([], snd (estimate_and_save api j f))),
        snd (run_jobs api js ([], snd (estimate_and_save api j f))))"
proof -
  obtain r f1 where e: "estimate_and_save api j f = (r, f1)" by (cases "estimate_and_save api j f")
  have "fst (run_jobs api js ([r], f1)) = [r] @ fst (run_jobs api js ([], f1))"
    and "snd (run_jobs api js ([r], f1)) = snd (run_jobs api js ([], f1))"
    using run_jobs_prefix[of api js "[r]" f1] by auto
  then show ?thesis by (simp add: e prod_eq_iff)
qed

lemma shutdown_runs_rest:
  assumes "length (outcomes pool) \<le> length (work pool)"
  shows "shutdown api (pool, f)
       = (pool\<lparr>outcomes := outcomes pool @ fst (run_jobs api (drop (length (outcomes pool)) (work pool)) ([], f))\<rparr>,
          snd (run_jobs api (drop (length (outcomes pool)) (work pool)) ([], f)))"
proof -
  let ?k = "length (outcomes pool)"
  have t: "take (length (work pool) - ?k) (drop ?k (work pool)) = drop ?k (work pool)" by simp
  obtain os f' where r: "run_jobs api (drop ?k (work pool)) (outcomes pool, f) = (os, f')"
    by (cases "run_jobs api (drop ?k (work pool)) (outcomes pool, f)")
  from run_jobs_prefix[of api "drop ?k (work pool)" "outcomes pool" f] r
  have "os = outcomes pool @ fst (run_jobs api (drop ?k (work pool)) ([], f))"
    and "f' = snd (run_jobs api (drop ?k (work pool)) ([], f))" by auto
  then show ?thesis
    unfolding shutdown_def advance_def by (simp add: t r del: run_jobs.simps)
qed

lemma drain_then_shutdown:
  assumes "length (outcomes pool) = k" and "k \<le> length (work pool)"
  shows "fst (enhance_drain api [k..<length (work pool)] (pool, f))
           = first_failure (fst (run_jobs api (drop k (work pool)) ([], f)))
       \<and> shutdown api (snd (enhance_drain api [k..<length (work pool)] (pool, f)))
           = (pool\<lparr>outcomes := outcomes pool @ fst (run_jobs api (drop k (work pool)) ([], f))\<rparr>,
              snd (run_jobs api (drop k (work pool)) ([], f)))"
  using assms
proof (induction "length (work pool) - k" arbitrary: k pool f)
  case 0
  then have k: "k = length (work pool)" by simp
  have "shutdown api (pool, f) = (pool, f)"
    using shutdown_runs_rest[of pool api f] 0 k by simp
  then show ?case by (simp add: k)
next
  case (Suc d)
  then have lt: "k < length (work pool)" by simp
  let ?j = "work pool ! k"
  obtain q f1 where e: "estimate_and_save api ?j f = (q, f1)" by (cases "estimate_and_save api ?j f")
  let ?pool1 = "pool\<lparr>outcomes := outcomes pool @ [q]\<rparr>"
  have res: "result api k (pool, f) = (q, ?pool1, f1)"
    using result_next[of pool api f] lt Suc.prems(1) e by simp
  have rj: "run_jobs api (drop k (work pool)) ([], f)
      = (q # fst (run_jobs api (drop (Suc k) (work pool)) ([], f1)),
         snd (run_jobs api (drop (Suc k) (work pool)) ([], f1)))"
    by (simp add: drop_next[OF lt] run_jobs_Cons e del: run_jobs.simps)
  show ?case
  proof (cases q)
    case (Inl err)
    have d: "enhance_drain api [k..<length (work pool)] (pool, f) = (Inl err, ?pool1, f1)"
      by (simp add: upt_next[OF lt] res Inl)
    have "shutdown api (?pool1, f1)
        = (?pool1\<lparr>outcomes := outcomes ?pool1
               @ fst (run_jobs api (drop (length (outcomes ?pool1)) (work ?pool1)) ([], f1))\<rparr>,
           snd (run_jobs api (drop (length (outcomes ?pool1)) (work ?pool1)) ([], f1)))"
      by (rule shutdown_runs_rest) (use lt Suc.prems(1) in simp)
    then show ?thesis
      using Suc.prems(1) by (simp add: d rj Inl del: run_jobs.simps)
  next
    case (Inr u)
    have d: "enhance_drain api [k..<length (work pool)] (pool, f)
        = enhance_drain api [Suc k..<length (work ?pool1)] (?pool1, f1)"
      by (simp add: upt_next[OF lt] res Inr)
    have ih: "fst (enhance_drain api [Suc k..<length (work ?pool1)] (?pool1, f1))
           = first_failure (fst (run_jobs api (drop (Suc k) (work ?pool1)) ([], f1)))
       \<and> shutdown api (snd (enhance_drain api [Suc k..<length (work ?pool1)] (?pool1, f1)))
           = (?pool1\<lparr>outcomes := outcomes ?pool1 @ fst (run_jobs api (drop (Suc k) (work ?pool1)) ([], f1))\<rparr>,
              snd (run_jobs api (drop (Suc k) (work ?pool1)) ([], f1)))"
      by (rule Suc.hyps(1)) (use Suc.hyps(2) Suc.prems lt in auto)
    then show ?thesis
      by (simp add: d rj Inr del: run_jobs.simps)
  qed
qed


lemma drain_from:
  assumes "length (outcomes pool) = k" and "k \<le> length (work pool)"
    and "enhance_drain api [k..<length (work pool)] (pool, f) = (r, pool', f')"
  shows "work pool' = work pool \<and> max_workers pool' = max_workers pool
       \<and> (\<exists>os. outcomes pool' = outcomes pool @ os
              \<and> run_jobs api (take (length os) (drop k (work pool))) ([], f) = (os, f')
              \<and> joined r os (length (work pool) - k))"
  using assms
proof (induction "length (work pool) - k" arbitrary: k pool f)
  case 0
  then have "k = length (work pool)" by simp
  with 0 show ?case by (auto simp: joined_def)
next
  case (Suc d)
  then have lt: "k < length (work pool)" by simp
  let ?j = "work pool ! k"
  obtain q f1 where e: "estimate_and_save api ?j f = (q, f1)" by (cases "estimate_and_save api ?j f")
  let ?pool1 = "pool\<lparr>outcomes := outcomes pool @ [q]\<rparr>"
  have res: "result api k (pool, f) = (q, ?pool1, f1)"
    using result_next[of pool api f] lt Suc.prems(1) e by simp
  show ?case
  proof (cases q)
    case (Inl err)
    have "enhance_drain api [k..<length (work pool)] (pool, f) = (Inl err, ?pool1, f1)"
      by (simp add: upt_next[OF lt] res Inl)
    with Suc.prems(3) have d: "r = Inl err" "pool' = ?pool1" "f' = f1"
      by auto
    have "run_jobs api (take (length [q]) (drop k (work pool))) ([], f) = ([q], f')"
      by (simp add: drop_next[OF lt] e d)
    moreover have "joined r [q] (length (work pool) - k)"
      using lt by (simp add: joined_def d Inl)
    ultimately show ?thesis unfolding d(2) by (intro conjI exI[of _ "[q]"]) simp_all
  next
    case (Inr u)
    with Suc.prems(3) have d: "enhance_drain api [Suc k..<length (work ?pool1)] (?pool1, f1) = (r, pool', f')"
      by (simp add: upt_next[OF lt] res)
    have "work pool' = work ?pool1 \<and> max_workers pool' = max_workers ?pool1
       \<and> (\<exists>os. outcomes pool' = outcomes ?pool1 @ os
              \<and> run_jobs api (take (length os) (drop (Suc k) (work ?pool1))) ([], f1) = (os, f')
              \<and> joined r os (length (work ?pool1) - Suc k))"
      by (rule Suc.hyps(1)[OF _ _ _ d]) (use Suc.hyps(2) Suc.prems lt in auto)
    then obtain os where os: "outcomes pool' = outcomes pool @ q # os"
        "run_jobs api (take (length os) (drop (Suc k) (work pool))) ([], f1) = (os, f')"
        "joined r os (length (work pool) - Suc k)"
      and w: "work pool' = work pool" "max_workers pool' = max_workers pool"
      by auto
    have "run_jobs api (take (length (q # os)) (drop k (work pool))) ([], f) = (q # os, f')"
      using os(2) by (simp add: drop_next[OF lt] run_jobs_Cons e del: run_jobs.simps)
    moreover have "joined r (q # os) (length (work pool) - k)"
      using os(3) lt Inr by (auto simp: joined_def split: sum.splits)
    ultimately show ?thesis using os(1) w by (intro conjI exI[of _ "q # os"]) simp_all
  qed
qed


lemma enhance_pool_pooled:
  assumes "pooled a"
  shows "enhance_pool api m out a (map Inr bs) s
       = (first_failure (fst (run_jobs api (map (work_unit m out a) bs) ([], fs s))),
          s\<lparr>fs := snd (run_jobs api (map (work_unit m out a) bs) ([], fs s)),
            stdout := (if bs = [] then stdout s else stdout s @ [''Waiting for pending jobs...''])\<rparr>)"
proof -
  let ?js = "map (work_unit m out a) bs"
  let ?p0 = "\<lparr>max_workers = num_workers a, work = [], outcomes = []\<rparr>"
  let ?p1 = "\<lparr>max_workers = num_workers a, work = ?js, outcomes = []\<rparr>"
  have pp: "ProcessPoolExecutor (num_workers a) = Inr ?p0"
    using assms by (simp add: pooled_def ProcessPoolExecutor_def)
  have dp: "enhance_dispatch api m out a (map Inr bs) [] (?p0, fs s) = (Inr [0..<length bs], ?p1, fs s)"
    using dispatch_all_submitted[OF assms, of api m out bs "[]" ?p0 "fs s"] by simp
  show ?thesis
  proof (cases "bs = []")
    case True
    have "shutdown api (?p0, fs s) = (?p0, fs s)"
      using shutdown_runs_rest[of ?p0 api "fs s"] by simp
    with True show ?thesis
      by (simp add: enhance_pool_def LogProgress_def pp)
  next
    case False
    have ds: "fst (enhance_drain api [0..<length (work ?p1)] (?p1, fs s))
           = first_failure (fst (run_jobs api (drop 0 (work ?p1)) ([], fs s)))
       \<and> shutdown api (snd (enhance_drain api [0..<length (work ?p1)] (?p1, fs s)))
           = (?p1\<lparr>outcomes := outcomes ?p1 @ fst (run_jobs api (drop 0 (work ?p1)) ([], fs s))\<rparr>,
              snd (run_jobs api (drop 0 (work ?p1)) ([], fs s)))"
      by (rule drain_then_shutdown) simp_all
    obtain r pf where d: "enhance_drain api [0..<length bs] (?p1, fs s) = (r, pf)"
      by (cases "enhance_drain api [0..<length bs] (?p1, fs s)")
    from ds d have r: "r = first_failure (fst (run_jobs api ?js ([], fs s)))"
      and sh: "snd (shutdown api pf) = snd (run_jobs api ?js ([], fs s))"
      by simp_all
    have ne: "[0..<length bs] \<noteq> []" using False by simp
    have "enhance_pool api m out a (map Inr bs) s
        = (case enhance_drain api [0..<length bs] (?p1, fs s) of
             (r, pf') \<Rightarrow> (r, s\<lparr>fs := snd (shutdown api pf'),
                               stdout := stdout s @ [''Waiting for pending jobs...'']\<rparr>))"
      unfolding enhance_pool_def LogProgress_def pp sum.case dp prod.case using ne by (simp only: not_False_eq_True if_True)
    then show ?thesis
      using False by (simp add: d r sh del: run_jobs.simps)
  qed
qed

lemma makedirs_keeps_files: "makedirs name f = Inr f1 \<Longrightarrow> disk_files f1 = disk_files f"
  by (auto simp: makedirs_def split: if_splits)

lemma write_wav_grows:
  assumes "write_wav w filename sr f = Inr f2"
  shows "dom (disk_files f) \<subseteq> dom (disk_files f2)"
proof -
  from assms obtain v where "torchaudio_save filename v sr f = Inr f2"
    by (auto simp: write_wav_def split: sum.splits)
  then show ?thesis by (auto simp: torchaudio_save_def Let_def split: if_splits)
qed

lemma save_wavs_grows:
  "save_wavs es ns fns out input_root sr f = (r, f') \<Longrightarrow> dom (disk_files f) \<subseteq> dom (disk_files f')"
proof (induction es ns fns out input_root sr f rule: save_wavs.induct)
  case (1 estimate estimates noisy noisy_sigs filename filenames out input_root sr f)
  show ?case
  proof (cases "output_path f out filename input_root")
    case (Inl e)
    with 1 show ?thesis by simp
  next
    case (Inr path)
    note p = this
    show ?thesis
    proof (cases "if truthy input_root then makedirs (dirname path) f else Inr f")
      case (Inl e)
      with 1 p show ?thesis by simp
    next
      case (Inr f1)
      note m = this
      then have k: "disk_files f1 = disk_files f"
        by (auto simp: makedirs_keeps_files split: if_splits)
      show ?thesis
      proof (cases "write_wav estimate path sr f1")
        case (Inl e)
        with 1 p m k show ?thesis by simp
      next
        case (Inr f2)
        with 1 p m have "save_wavs estimates noisy_sigs filenames out input_root sr f2 = (r, f')" by simp
        then have "dom (disk_files f2) \<subseteq> dom (disk_files f')"
          by (rule "1.IH"[OF p m Inr])
        with write_wav_grows[OF Inr] k show ?thesis by auto
      qed
    qed
  qed
qed simp_all

lemma estimate_and_save_grows:
  "estimate_and_save api j f = (r, f') \<Longrightarrow> dom (disk_files f) \<subseteq> dom (disk_files f')"
  by (auto simp: estimate_and_save_def split: sum.splits dest: save_wavs_grows)

lemma run_jobs_grows:
  "run_jobs api js (os, f) = (os', f') \<Longrightarrow> dom (disk_files f) \<subseteq> dom (disk_files f')"
proof (induction js arbitrary: os f)
  case Nil
  then show ?case by simp
next
  case (Cons j js)
  obtain r f1 where e: "estimate_and_save api j f = (r, f1)" by (cases "estimate_and_save api j f")
  with Cons.prems have "run_jobs api js (os @ [r], f1) = (os', f')" by simp
  then have "dom (disk_files f1) \<subseteq> dom (disk_files f')" by (rule Cons.IH)
  with estimate_and_save_grows[OF e] show ?case by blast
qed


lemmas run_defs =
  estimate_and_save_def work_unit_def get_estimate_def truthy_def output_path_def path_defs
  tensor_add_def broadcast_def scale_def write_wav_def abs_max_def torchaudio_save_def makedirs_def

lemma example_pooled: "pooled parser_defaults"
  by (simp add: pooled_def parser_defaults_def)

lemma example_jobs:
  "run_jobs example_api (map (work_unit example_model ''/out'' parser_defaults) example_batches) ([], example_fs)
   = ([Inr (), Inr (), Inl (Failure ''InferenceError''), Inr (), Inr ()],
      example_fs\<lparr>disk_files :=
        [[''out'', ''a.wav''] \<mapsto> ([[1]], 16000), [''out'', ''b.wav''] \<mapsto> ([[1]], 16000),
         [''out'', ''d.wav''] \<mapsto> ([[1]], 16000), [''out'', ''e.wav''] \<mapsto> ([[1]], 16000)]\<rparr>)"
  by (simp add: example_batches_def run_defs parser_defaults_def example_model_def example_fs_def Let_def)


lemma first_failure_append:
  "\<forall>q \<in> set os1. q = Inr () \<Longrightarrow> first_failure (os1 @ os2) = first_failure os2"
  by (induction os1) auto

lemma run_jobs_take:
  "fst (run_jobs api (take k js) ([], f)) = take k (fst (run_jobs api js ([], f)))"
proof -
  have "run_jobs api js ([], f) = run_jobs api (drop k js) (run_jobs api (take k js) ([], f))"
    using run_jobs_append[of api "take k js" "drop k js" "[]" f] by simp
  then have "fst (run_jobs api js ([], f))
      = fst (run_jobs api (take k js) ([], f))
        @ fst (run_jobs api (drop k js) ([], snd (run_jobs api (take k js) ([], f))))"
    using run_jobs_prefix[of api "drop k js" "fst (run_jobs api (take k js) ([], f))"
        "snd (run_jobs api (take k js) ([], f))"]
    by simp
  moreover have "length (fst (run_jobs api (take k js) ([], f))) = min (length js) k"
    using length_run_jobs[of api "take k js" "[]" f] by simp
  moreover have "length (fst (run_jobs api js ([], f))) = length js"
    using length_run_jobs[of api js "[]" f] by simp
  ultimately show ?thesis
    by (cases "k \<le> length js") auto
qed

lemma joined_position:
  assumes "joined r os n" and "os = take (length os) (os1 @ Inl e # rest)"
    and "\<forall>q \<in> set os1. q = Inr ()" and "length os1 < n"
  shows "r = Inl e \<and> length os = Suc (length os1)"
proof (cases r)
  case (Inr u)
  with assms(1) have len: "length os = n" and ok: "\<forall>q \<in> set os. q = Inr ()"
    by (auto simp: joined_def)
  have "os ! length os1 = (os1 @ Inl e # rest) ! length os1"
    using assms(2,4) len by (metis nth_take)
  then have "os ! length os1 = Inl e" by simp
  moreover have "os ! length os1 \<in> set os" using len assms(4) by simp
  ultimately show ?thesis using ok by auto
next
  case (Inl e')
  with assms(1) have ne: "os \<noteq> []" and last: "last os = Inl e'"
    and ok: "\<forall>q \<in> set (butlast os). q = Inr ()"
    by (auto simp: joined_def)
  let ?all = "os1 @ Inl e # rest"
  have nth: "\<And>i. i < length os \<Longrightarrow> os ! i = ?all ! i"
    using assms(2) by (metis nth_take)
  have le: "length os \<le> length ?all"
    using assms(2) by (metis length_take min.cobounded1)
  have "\<not> length os \<le> length os1"
  proof
    assume a: "length os \<le> length os1"
    have lt: "length os - 1 < length os1" using a ne by (cases os) auto
    have "last os = os ! (length os - 1)" using ne by (simp add: last_conv_nth)
    also have "\<dots> = ?all ! (length os - 1)" using ne by (intro nth) simp
    also have "\<dots> = os1 ! (length os - 1)" using lt by (simp add: nth_append)
    finally have "last os \<in> set os1" using lt by simp
    with assms(3) last show False by auto
  qed
  moreover have "\<not> Suc (length os1) < length os"
  proof
    assume a: "Suc (length os1) < length os"
    then have "butlast os ! length os1 = os ! length os1" by (simp add: nth_butlast)
    also have "\<dots> = Inl e" using a nth[of "length os1"] by simp
    finally have "butlast os ! length os1 = Inl e" .
    moreover have "length os1 < length (butlast os)" using a by simp
    ultimately have "Inl e \<in> set (butlast os)" using nth_mem by metis
    with ok show False by auto
  qed
  ultimately have len: "length os = Suc (length os1)" by simp
  have "last os = os ! length os1" using len ne by (simp add: last_conv_nth)
  also have "\<dots> = Inl e" using nth[of "length os1"] len by simp
  finally show ?thesis using last Inl len by simp
qed

lemma pool_failure_facts:
  assumes "pooled a"
    and "map (work_unit m out a) bs = js1 @ j # js2"
    and "run_jobs api js1 ([], fs s) = (os1, f1)" and "\<forall>q \<in> set os1. q = Inr ()"
    and "estimate_and_save api j f1 = (Inl e, f2)"
  shows "fst (enhance_pool api m out a (map Inr bs) s) = Inl e"
    and "fs (snd (enhance_pool api m out a (map Inr bs) s)) = snd (run_jobs api js2 ([], f2))"
    and "dom (disk_files f1) \<subseteq> dom (disk_files (fs (snd (enhance_pool api m out a (map Inr bs) s))))"
proof -
  have all: "run_jobs api (js1 @ j # js2) ([], fs s)
      = (os1 @ Inl e # fst (run_jobs api js2 ([], f2)), snd (run_jobs api js2 ([], f2)))"
    using run_jobs_prefix[of api js2 "os1 @ [Inl e]" f2]
    by (simp add: run_jobs_append assms(3,5) prod_eq_iff del: run_jobs.simps)
      (simp add: assms(5))
  show 1: "fst (enhance_pool api m out a (map Inr bs) s) = Inl e"
    by (simp add: enhance_pool_pooled[OF assms(1)] assms(2) all first_failure_append[OF assms(4)]
        del: run_jobs.simps)
  show 2: "fs (snd (enhance_pool api m out a (map Inr bs) s)) = snd (run_jobs api js2 ([], f2))"
    by (simp add: enhance_pool_pooled[OF assms(1)] assms(2) all del: run_jobs.simps)
  have "dom (disk_files f1) \<subseteq> dom (disk_files f2)"
    by (rule estimate_and_save_grows[OF assms(5)])
  moreover have "dom (disk_files f2) \<subseteq> dom (disk_files (snd (run_jobs api js2 ([], f2))))"
    by (rule run_jobs_grows[of api js2 "[]" f2 "fst (run_jobs api js2 ([], f2))"]) simp
  ultimately show "dom (disk_files f1) \<subseteq> dom (disk_files (fs (snd (enhance_pool api m out a (map Inr bs) s))))"
    unfolding 2 by blast
qed


lemma drain_stops_at_failure:
  assumes "run_jobs api js1 ([], f) = (os1, f1)" and "\<forall>q \<in> set os1. q = Inr ()"
    and "estimate_and_save api j f1 = (Inl e, f2)"
    and "enhance_drain api [0..<length (js1 @ j # js2)]
           (\<lparr>max_workers = n, work = js1 @ j # js2, outcomes = []\<rparr>, f) = (r, pool', f')"
  shows "r = Inl e \<and> length (outcomes pool') = Suc (length js1) \<and> f' = f2"
proof -
  let ?js = "js1 @ j # js2"
  let ?pool = "\<lparr>max_workers = n, work = ?js, outcomes = []\<rparr>"
  have "enhance_drain api [0..<length (work ?pool)] (?pool, f) = (r, pool', f')"
    using assms(4) by simp
  from drain_from[OF _ _ this]
  obtain os where os: "outcomes pool' = os"
    "run_jobs api (take (length os) ?js) ([], f) = (os, f')"
    "joined r os (length ?js)"
    by auto
  have all: "run_jobs api ?js ([], f)
      = (os1 @ Inl e # fst (run_jobs api js2 ([], f2)), snd (run_jobs api js2 ([], f2)))"
    using run_jobs_prefix[of api js2 "os1 @ [Inl e]" f2]
    by (simp add: run_jobs_append assms(1,3) prod_eq_iff del: run_jobs.simps)
      (simp add: assms(3))
  have l1: "length os1 = length js1"
    using length_run_jobs[of api js1 "[]" f] assms(1) by simp
  have "os = take (length os) (fst (run_jobs api ?js ([], f)))"
    using run_jobs_take[of api "length os" ?js f] os(2) by simp
  then have "os = take (length os) (os1 @ Inl e # fst (run_jobs api js2 ([], f2)))"
    by (simp add: all)
  from joined_position[OF os(3) this assms(2)] l1
  have r: "r = Inl e" and len: "length os = Suc (length js1)" by simp_all
  have "take (Suc (length js1)) ?js = js1 @ [j]" by simp
  with os(2) len have "run_jobs api (js1 @ [j]) ([], f) = (os, f')" by simp
  then have "f' = f2"
    by (simp add: run_jobs_append assms(1,3) del: run_jobs.simps) (simp add: assms(3))
  with r len os(1) show ?thesis by simp
qed

lemma example_work:
  "map (work_unit example_model ''/out'' parser_defaults) example_batches
   = [work_unit example_model ''/out'' parser_defaults ([[[2]]], [''/in/a.wav'']),
      work_unit example_model ''/out'' parser_defaults ([[[4]]], [''/in/b.wav''])]
     @ work_unit example_model ''/out'' parser_defaults ([[[0]]], [''/in/c.wav''])
     # [work_unit example_model ''/out'' parser_defaults ([[[6]]], [''/in/d.wav'']),
        work_unit example_model ''/out'' parser_defaults ([[[8]]], [''/in/e.wav''])]"
  by (simp add: example_batches_def)

lemma example_first_two:
  "run_jobs example_api
     [work_unit example_model ''/out'' parser_defaults ([[[2]]], [''/in/a.wav'']),
      work_unit example_model ''/out'' parser_defaults ([[[4]]], [''/in/b.wav''])] ([], example_fs)
   = ([Inr (), Inr ()],
      example_fs\<lparr>disk_files :=
        [[''out'', ''a.wav''] \<mapsto> ([[1]], 16000), [''out'', ''b.wav''] \<mapsto> ([[1]], 16000)]\<rparr>)"
  by (simp add: run_defs parser_defaults_def example_model_def example_fs_def Let_def)

lemma example_third:
  "estimate_and_save example_api (work_unit example_model ''/out'' parser_defaults ([[[0]]], [''/in/c.wav''])) f
   = (Inl (Failure ''InferenceError''), f)"
  by (simp add: run_defs parser_defaults_def example_model_def)

lemma example_last_two:
  "run_jobs example_api
     [work_unit example_model ''/out'' parser_defaults ([[[6]]], [''/in/d.wav'']),
      work_unit example_model ''/out'' parser_defaults ([[[8]]], [''/in/e.wav''])]
     ([], example_fs\<lparr>disk_files :=
        [[''out'', ''a.wav''] \<mapsto> ([[1]], 16000), [''out'', ''b.wav''] \<mapsto> ([[1]], 16000)]\<rparr>)
   = ([Inr (), Inr ()],
      example_fs\<lparr>disk_files :=
        [[''out'', ''a.wav''] \<mapsto> ([[1]], 16000), [''out'', ''b.wav''] \<mapsto> ([[1]], 16000),
         [''out'', ''d.wav''] \<mapsto> ([[1]], 16000), [''out'', ''e.wav''] \<mapsto> ([[1]], 16000)]\<rparr>)"
  by (simp add: run_defs parser_defaults_def example_model_def example_fs_def Let_def)

lemma example_length: "length example_batches = 5"
  by (simp add: example_batches_def)

lemma upt_0_5: "[0..<5] = [0, 1, 2, 3, 4]"
  by code_simp

lemma example_dispatch:
  "enhance_dispatch example_api example_model ''/out'' parser_defaults (map Inr example_batches) []
     (\<lparr>max_workers = 10, work = [], outcomes = []\<rparr>, example_fs)
   = (Inr [0..<5], example_pool, example_fs)"
  using dispatch_all_submitted[OF example_pooled, of example_api example_model "''/out''" example_batches "[]"
      "\<lparr>max_workers = 10, work = [], outcomes = []\<rparr>" example_fs]
  by (simp add: example_pool_def example_length del: enhance_dispatch.simps upt_Suc)

lemma example_drain:
  "enhance_drain example_api [0..<5] (example_pool, example_fs)
   = (Inl (Failure ''InferenceError''),
      example_pool\<lparr>outcomes := [Inr (), Inr (), Inl (Failure ''InferenceError'')]\<rparr>,
      example_fs\<lparr>disk_files :=
        [[''out'', ''a.wav''] \<mapsto> ([[1]], 16000), [''out'', ''b.wav''] \<mapsto> ([[1]], 16000)]\<rparr>)"
  unfolding upt_0_5
  by (simp add: result_def advance_def example_pool_def example_batches_def
        run_defs parser_defaults_def example_model_def example_fs_def Let_def)

text \<open>
  C1. In the loop over the loader, an item is handed to the pool exactly when the device
  is \<^verbatim>\<open>cpu\<close> and \<^verbatim>\<open>num_workers\<close> is above 1. Then the scheduler appends the work unit
  (model, waveform, file names, \<^verbatim>\<open>out_dir\<close>, configuration) to the work of the pool, whose
  size is \<^verbatim>\<open>num_workers\<close>, keeps the future, and goes on to the next item with the disk
  untouched: after the loop all items are submitted, in their order, and none has run.
  In every other case the scheduler estimates and saves the item itself before it goes
  on, stops at the first failure, and submits nothing.
\<close>

theorem enhance_dispatch_modes:
  "(pooled a \<longrightarrow>
      enhance_dispatch api m out a (Inr b # rest) pendings (pool, f)
        = enhance_dispatch api m out a rest (pendings @ [length (work pool)])
            (pool\<lparr>work := work pool @ [work_unit m out a b]\<rparr>, f)
    \<and> enhance_dispatch api m out a (map Inr bs) pendings (pool, f)
        = (Inr (pendings @ [length (work pool) ..< length (work pool) + length bs]),
           pool\<lparr>work := work pool @ map (work_unit m out a) bs\<rparr>, f)
    \<and> ProcessPoolExecutor (num_workers a)
        = Inr \<lparr>max_workers = num_workers a, work = [], outcomes = []\<rparr>)
   \<and> (\<not> pooled a \<longrightarrow>
      enhance_dispatch api m out a (Inr b # rest) pendings (pool, f)
        = (case estimate_and_save api (work_unit m out a b) f of
             (Inl e, f') \<Rightarrow> (Inl e, pool, f')
           | (Inr u, f') \<Rightarrow> enhance_dispatch api m out a rest pendings (pool, f'))
    \<and> (\<forall>r pool' f'. enhance_dispatch api m out a batches pendings (pool, f) = (r, pool', f')
          \<longrightarrow> pool' = pool \<and> (\<forall>ps. r = Inr ps \<longrightarrow> ps = pendings)))"
proof (intro conjI impI allI)
  assume p: "pooled a"
  show "enhance_dispatch api m out a (Inr b # rest) pendings (pool, f)
        = enhance_dispatch api m out a rest (pendings @ [length (work pool)])
            (pool\<lparr>work := work pool @ [work_unit m out a b]\<rparr>, f)"
    by (rule dispatch_submit[OF p])
  show "enhance_dispatch api m out a (map Inr bs) pendings (pool, f)
        = (Inr (pendings @ [length (work pool) ..< length (work pool) + length bs]),
           pool\<lparr>work := work pool @ map (work_unit m out a) bs\<rparr>, f)"
    by (rule dispatch_all_submitted[OF p])
  show "ProcessPoolExecutor (num_workers a)
        = Inr \<lparr>max_workers = num_workers a, work = [], outcomes = []\<rparr>"
    using p by (simp add: pooled_def pool_size)
next
  assume p: "\<not> pooled a"
  show "enhance_dispatch api m out a (Inr b # rest) pendings (pool, f)
        = (case estimate_and_save api (work_unit m out a b) f of
             (Inl e, f') \<Rightarrow> (Inl e, pool, f')
           | (Inr u, f') \<Rightarrow> enhance_dispatch api m out a rest pendings (pool, f'))"
    by (rule dispatch_inline[OF p])
  fix r pool' f'
  assume "enhance_dispatch api m out a batches pendings (pool, f) = (r, pool', f')"
  from dispatch_inline_keeps_pool[OF p this]
  show "pool' = pool" and "\<And>ps. r = Inr ps \<Longrightarrow> ps = pendings" by auto
qed

theorem enhance_dispatch_modes_witness:
  "enhance_dispatch example_api example_model ''/out'' parser_defaults (map Inr example_batches) []
     (\<lparr>max_workers = 10, work = [], outcomes = []\<rparr>, example_fs)
     = (Inr [0, 1, 2, 3, 4], example_pool, example_fs)
   \<and> ProcessPoolExecutor (num_workers parser_defaults) = Inr \<lparr>max_workers = 10, work = [], outcomes = []\<rparr>
   \<and> enhance_dispatch example_api example_model ''/out'' (parser_defaults\<lparr>num_workers := 1\<rparr>)
       [Inr ([[[2]]], [''/in/a.wav''])] [] (\<lparr>max_workers = 1, work = [], outcomes = []\<rparr>, example_fs)
     = (Inr [], \<lparr>max_workers = 1, work = [], outcomes = []\<rparr>,
        example_fs\<lparr>disk_files := [[''out'', ''a.wav''] \<mapsto> ([[1]], 16000)]\<rparr>)"
proof -
  note t = enhance_dispatch_modes[of parser_defaults example_api example_model "''/out''" _ _ "[]"
      "\<lparr>max_workers = 10, work = [], outcomes = []\<rparr>" example_fs example_batches]
  from t example_pooled
  have 1: "enhance_dispatch example_api example_model ''/out'' parser_defaults (map Inr example_batches) []
     (\<lparr>max_workers = 10, work = [], outcomes = []\<rparr>, example_fs)
     = (Inr [0, 1, 2, 3, 4], example_pool, example_fs)"
    using upt_0_5 by (simp add: example_pool_def example_length del: enhance_dispatch.simps upt_Suc)
  from t example_pooled
  have 2: "ProcessPoolExecutor (num_workers parser_defaults) = Inr \<lparr>max_workers = 10, work = [], outcomes = []\<rparr>"
    by (simp add: parser_defaults_def)
  have np: "\<not> pooled (parser_defaults\<lparr>num_workers := 1\<rparr>)"
    by (simp add: pooled_def)
  note u = enhance_dispatch_modes[of "parser_defaults\<lparr>num_workers := 1\<rparr>" example_api example_model "''/out''"
      "([[[2]]], [''/in/a.wav''])" "[]" "[]" "\<lparr>max_workers = 1, work = [], outcomes = []\<rparr>" example_fs]
  have job: "estimate_and_save example_api
       (work_unit example_model ''/out'' (parser_defaults\<lparr>num_workers := 1\<rparr>) ([[[2]]], [''/in/a.wav'']))
       example_fs
     = (Inr (), example_fs\<lparr>disk_files := [[''out'', ''a.wav''] \<mapsto> ([[1]], 16000)]\<rparr>)"
    by (simp add: run_defs parser_defaults_def example_model_def example_fs_def Let_def)
  from u np
  have 3: "enhance_dispatch example_api example_model ''/out'' (parser_defaults\<lparr>num_workers := 1\<rparr>)
       [Inr ([[[2]]], [''/in/a.wav''])] [] (\<lparr>max_workers = 1, work = [], outcomes = []\<rparr>, example_fs)
     = (Inr [], \<lparr>max_workers = 1, work = [], outcomes = []\<rparr>,
        example_fs\<lparr>disk_files := [[''out'', ''a.wav''] \<mapsto> ([[1]], 16000)]\<rparr>)"
    by (simp add: job del: enhance_dispatch.simps) simp
  from 1 2 3 show ?thesis by blast
qed

text \<open>
  C2. After the loop has submitted every item, the scheduler waits for the futures in the
  order of submission. The jobs that have run when it stops are the first ones in that
  order, each run once. When all succeed, all have run; when one raises, that failure
  is what the loop raises, it is the last job that has run, and the futures after it are
  not waited for. What the loop returns or raises is what \<^verbatim>\<open>enhance\<close> returns or raises.
\<close>

theorem enhance_drain_in_order:
  assumes "pooled a"
    and "ProcessPoolExecutor (num_workers a) = Inr pool0"
    and "enhance_dispatch api m out a (map Inr bs) [] (pool0, fs s) = (Inr pendings, pool, f0)"
    and "enhance_drain api pendings (pool, f0) = (r, pool', f')"
  shows "pendings = [0..<length bs] \<and> work pool = map (work_unit m out a) bs \<and> f0 = fs s
       \<and> run_jobs api (take (length (outcomes pool')) (work pool)) ([], fs s) = (outcomes pool', f')
       \<and> joined r (outcomes pool') (length bs)
       \<and> fst (enhance_pool api m out a (map Inr bs) s) = r"
proof -
  have p0: "pool0 = \<lparr>max_workers = num_workers a, work = [], outcomes = []\<rparr>"
    using assms(1,2) by (simp add: pooled_def ProcessPoolExecutor_def)
  from assms(3) dispatch_all_submitted[OF assms(1), of api m out bs "[]" pool0 "fs s"]
  have d: "pendings = [0..<length bs]"
    "pool = \<lparr>max_workers = num_workers a, work = map (work_unit m out a) bs, outcomes = []\<rparr>"
    "f0 = fs s" by (simp_all add: p0)
  have dr: "enhance_drain api [0..<length (work pool)] (pool, fs s) = (r, pool', f')"
    using assms(4) d by simp
  from drain_from[OF _ _ dr] d(2)
  have "run_jobs api (take (length (outcomes pool')) (work pool)) ([], fs s) = (outcomes pool', f')"
    and "joined r (outcomes pool') (length bs)"
    by auto
  moreover have "fst (enhance_pool api m out a (map Inr bs) s) = r"
    using drain_then_shutdown[of pool 0 api "fs s"] dr d(2)
    by (simp add: enhance_pool_pooled[OF assms(1)] del: run_jobs.simps)
  ultimately show ?thesis using d by simp
qed

theorem enhance_drain_in_order_witness:
  "enhance_drain example_api [0..<5] (example_pool, example_fs)
     = (Inl (Failure ''InferenceError''),
        example_pool\<lparr>outcomes := [Inr (), Inr (), Inl (Failure ''InferenceError'')]\<rparr>,
        example_fs\<lparr>disk_files :=
          [[''out'', ''a.wav''] \<mapsto> ([[1]], 16000), [''out'', ''b.wav''] \<mapsto> ([[1]], 16000)]\<rparr>)
   \<and> run_jobs example_api (take 3 (work example_pool)) ([], example_fs)
     = ([Inr (), Inr (), Inl (Failure ''InferenceError'')],
        example_fs\<lparr>disk_files :=
          [[''out'', ''a.wav''] \<mapsto> ([[1]], 16000), [''out'', ''b.wav''] \<mapsto> ([[1]], 16000)]\<rparr>)
   \<and> joined (Inl (Failure ''InferenceError'')) [Inr (), Inr (), Inl (Failure ''InferenceError'')] 5
   \<and> fst (enhance_pool example_api example_model ''/out'' parser_defaults (map Inr example_batches)
            example_state)
     = Inl (Failure ''InferenceError'')"
proof -
  have pp: "ProcessPoolExecutor (num_workers parser_defaults)
      = Inr \<lparr>max_workers = 10, work = [], outcomes = []\<rparr>"
    by (simp add: ProcessPoolExecutor_def parser_defaults_def)
  have st: "fs example_state = example_fs" by (simp add: example_state_def)
  have dp: "enhance_dispatch example_api example_model ''/out'' parser_defaults (map Inr example_batches) []
      (\<lparr>max_workers = 10, work = [], outcomes = []\<rparr>, fs example_state)
      = (Inr [0..<5], example_pool, example_fs)"
    unfolding st by (rule example_dispatch)
  note t = enhance_drain_in_order[OF example_pooled pp dp example_drain, unfolded st]
  from t have "run_jobs example_api
      (take (length (outcomes (example_pool\<lparr>outcomes := [Inr (), Inr (), Inl (Failure ''InferenceError'')]\<rparr>)))
         (work example_pool)) ([], example_fs)
     = (outcomes (example_pool\<lparr>outcomes := [Inr (), Inr (), Inl (Failure ''InferenceError'')]\<rparr>),
        example_fs\<lparr>disk_files :=
          [[''out'', ''a.wav''] \<mapsto> ([[1]], 16000), [''out'', ''b.wav''] \<mapsto> ([[1]], 16000)]\<rparr>)"
    by blast
  then have a: "run_jobs example_api (take 3 (work example_pool)) ([], example_fs)
     = ([Inr (), Inr (), Inl (Failure ''InferenceError'')],
        example_fs\<lparr>disk_files :=
          [[''out'', ''a.wav''] \<mapsto> ([[1]], 16000), [''out'', ''b.wav''] \<mapsto> ([[1]], 16000)]\<rparr>)"
    by (simp add: numeral_3_eq_3 del: run_jobs.simps)
  from t have "joined (Inl (Failure ''InferenceError''))
      (outcomes (example_pool\<lparr>outcomes := [Inr (), Inr (), Inl (Failure ''InferenceError'')]\<rparr>))
      (length example_batches)"
    by blast
  then have b: "joined (Inl (Failure ''InferenceError'')) [Inr (), Inr (), Inl (Failure ''InferenceError'')] 5"
    by (simp add: example_length)
  from t have c: "fst (enhance_pool example_api example_model ''/out'' parser_defaults
      (map Inr example_batches) example_state) = Inl (Failure ''InferenceError'')"
    by blast
  from example_drain a b c show ?thesis by blast
qed

text \<open>
  C7, amended. When a job raises after the jobs before it have succeeded, the scheduler
  raises that failure and what the earlier jobs wrote is still on disk. The later jobs
  were submitted before the scheduler began to wait: when the wait stops they have not
  run and their futures are never waited for, but the shutdown of the pool runs them
  before the failure leaves \<^verbatim>\<open>enhance\<close>.
\<close>

theorem enhance_pool_failure:
  assumes "pooled a"
    and "map (work_unit m out a) bs = js1 @ j # js2"
    and "run_jobs api js1 ([], fs s) = (os1, f1)" and "\<forall>q \<in> set os1. q = Inr ()"
    and "estimate_and_save api j f1 = (Inl e, f2)"
  shows "fst (enhance_pool api m out a (map Inr bs) s) = Inl e
       \<and> dom (disk_files f1) \<subseteq> dom (disk_files (fs (snd (enhance_pool api m out a (map Inr bs) s))))
       \<and> fs (snd (enhance_pool api m out a (map Inr bs) s)) = snd (run_jobs api js2 ([], f2))
       \<and> (\<forall>r pool' f'.
             enhance_drain api [0..<length bs]
               (\<lparr>max_workers = num_workers a, work = js1 @ j # js2, outcomes = []\<rparr>, fs s) = (r, pool', f')
             \<longrightarrow> r = Inl e \<and> length (outcomes pool') = Suc (length js1) \<and> f' = f2)"
proof -
  have len: "length bs = length (js1 @ j # js2)"
    using assms(2) by (metis length_map)
  have "\<forall>r pool' f'.
      enhance_drain api [0..<length bs]
        (\<lparr>max_workers = num_workers a, work = js1 @ j # js2, outcomes = []\<rparr>, fs s) = (r, pool', f')
      \<longrightarrow> r = Inl e \<and> length (outcomes pool') = Suc (length js1) \<and> f' = f2"
    unfolding len using drain_stops_at_failure[OF assms(3,4,5)] by blast
  with pool_failure_facts[OF assms] show ?thesis by blast
qed

theorem enhance_pool_failure_witness:
  "fst (enhance_pool example_api example_model ''/out'' parser_defaults (map Inr example_batches) example_state)
     = Inl (Failure ''InferenceError'')
   \<and> {[''out'', ''a.wav''], [''out'', ''b.wav'']}
       \<subseteq> dom (disk_files (fs (snd (enhance_pool example_api example_model ''/out'' parser_defaults
                                   (map Inr example_batches) example_state))))
   \<and> disk_files (fs (snd (enhance_pool example_api example_model ''/out'' parser_defaults
                            (map Inr example_batches) example_state)))
     = [[''out'', ''a.wav''] \<mapsto> ([[1]], 16000), [''out'', ''b.wav''] \<mapsto> ([[1]], 16000),
        [''out'', ''d.wav''] \<mapsto> ([[1]], 16000), [''out'', ''e.wav''] \<mapsto> ([[1]], 16000)]"
proof -
  let ?run = "enhance_pool example_api example_model ''/out'' parser_defaults (map Inr example_batches)
                example_state"
  let ?f1 = "example_fs\<lparr>disk_files :=
        [[''out'', ''a.wav''] \<mapsto> ([[1]], 16000), [''out'', ''b.wav''] \<mapsto> ([[1]], 16000)]\<rparr>"
  have s: "fs example_state = example_fs" by (simp add: example_state_def)
  have ft: "run_jobs example_api
     [work_unit example_model ''/out'' parser_defaults ([[[2]]], [''/in/a.wav'']),
      work_unit example_model ''/out'' parser_defaults ([[[4]]], [''/in/b.wav''])] ([], fs example_state)
   = ([Inr (), Inr ()], ?f1)"
    unfolding s by (rule example_first_two)
  have ok: "\<forall>q \<in> set [Inr (), Inr () :: error + unit]. q = Inr ()" by simp
  note t = enhance_pool_failure[OF example_pooled example_work ft ok example_third]
  from t have c1: "fst ?run = Inl (Failure ''InferenceError'')" by blast
  from t have c2: "dom (disk_files ?f1) \<subseteq> dom (disk_files (fs (snd ?run)))" by blast
  from t have c3: "fs (snd ?run) = snd (run_jobs example_api
     [work_unit example_model ''/out'' parser_defaults ([[[6]]], [''/in/d.wav'']),
      work_unit example_model ''/out'' parser_defaults ([[[8]]], [''/in/e.wav''])]
     ([], ?f1))" by blast
  have c4: "disk_files (fs (snd ?run))
     = [[''out'', ''a.wav''] \<mapsto> ([[1]], 16000), [''out'', ''b.wav''] \<mapsto> ([[1]], 16000),
        [''out'', ''d.wav''] \<mapsto> ([[1]], 16000), [''out'', ''e.wav''] \<mapsto> ([[1]], 16000)]"
    unfolding c3 example_last_two by simp
  have "dom (disk_files ?f1) = {[''out'', ''a.wav''], [''out'', ''b.wav'']}" by auto
  with c1 c2 c4 show ?thesis by simp
qed

text \<open>
  C7 as stated fails: in the run of five items whose third job raises, the outputs of
  the fourth and the fifth item are on disk when the failure is raised.
\<close>

theorem later_items_processed_after_failure:
  "fst (enhance_pool example_api example_model ''/out'' parser_defaults (map Inr example_batches) example_state)
     = Inl (Failure ''InferenceError'')
   \<and> disk_files (fs (snd (enhance_pool example_api example_model ''/out'' parser_defaults
                            (map Inr example_batches) example_state))) [''out'', ''d.wav'']
     = Some ([[1]], 16000)
   \<and> disk_files (fs (snd (enhance_pool example_api example_model ''/out'' parser_defaults
                            (map Inr example_batches) example_state))) [''out'', ''e.wav'']
     = Some ([[1]], 16000)"
  by (simp add: enhance_pool_pooled[OF example_pooled] example_jobs example_state_def del: run_jobs.simps)

subsection \<open>Resolving the dataset\<close>

lemma get_dataset_sources:
  "get_dataset w a sr channels s =
     (if truthy (p_noisy_json (sources a)) then
        (case json_load w (the (p_noisy_json (sources a))) of
           Inl e \<Rightarrow> (Inl e, s)
         | Inr files \<Rightarrow>
            (case Audioset w files sr channels of
               Inl e \<Rightarrow> (Inl e, s)
             | Inr d \<Rightarrow> (Inr (Some d), s)))
      else if truthy (p_noisy_dir (sources a)) then
        (case find_audio_files w (the (p_noisy_dir (sources a))) of
           Inl e \<Rightarrow> (Inl e, s)
         | Inr files \<Rightarrow>
            (case Audioset w files sr channels of
               Inl e \<Rightarrow> (Inl e, s)
             | Inr d \<Rightarrow> (Inr (Some d), s)))
      else (Inr None, s\<lparr>warnings := warnings s @ [skip_warning]\<rparr>))"
  by (simp add: get_dataset_def sources_def Let_def)

text \<open>
  C8. When neither \<^verbatim>\<open>noisy_json\<close> nor \<^verbatim>\<open>noisy_dir\<close> is set and the model loads,
  \<^verbatim>\<open>get_dataset\<close> returns \<^verbatim>\<open>None\<close> and logs its warning, \<^verbatim>\<open>enhance\<close> returns without
  touching the disk or the standard output, and the script exits with status 0.
\<close>

theorem no_input_is_noop:
  assumes "\<not> truthy (p_noisy_json (sources a))" and "\<not> truthy (p_noisy_dir (sources a))"
    and "get_model w a = Inr m"
  shows "get_dataset w a sr channels s = (Inr None, s\<lparr>warnings := warnings s @ [skip_warning]\<rparr>)
       \<and> enhance w a None (Some (out_dir a)) s = (Inr (), s\<lparr>warnings := warnings s @ [skip_warning]\<rparr>)
       \<and> main w a s = (0, s\<lparr>warnings := warnings s @ [skip_warning]\<rparr>)"
  using assms by (simp add: get_dataset_sources enhance_def main_def)

theorem no_input_is_noop_witness:
  "get_dataset example_world parser_defaults 16000 1 example_state
     = (Inr None, example_state\<lparr>warnings := [skip_warning]\<rparr>)
   \<and> main example_world parser_defaults example_state
     = (0, \<lparr>fs = example_fs, warnings = [skip_warning], stdout = []\<rparr>)"
proof -
  have a: "\<not> truthy (p_noisy_json (sources parser_defaults))"
    and b: "\<not> truthy (p_noisy_dir (sources parser_defaults))"
    by (simp_all add: sources_def parser_defaults_def truthy_def)
  have c: "get_model example_world parser_defaults = Inr example_model"
    by (simp add: example_world_def)
  from no_input_is_noop[OF a b c, of 16000 1 example_state] show ?thesis
    by (simp add: example_state_def)
qed


text \<open>
  C9, amended. With \<^verbatim>\<open>noisy_json\<close> set, a manifest that is not JSON makes \<^verbatim>\<open>json.load\<close>
  raise; the error leaves \<^verbatim>\<open>get_dataset\<close>, nothing is written and nothing is tried again,
  and the script exits with status 1. A manifest that parses is handed to \<^verbatim>\<open>Audioset\<close>
  as it is, whatever its top level: \<^verbatim>\<open>get_dataset\<close> fails on it exactly when
  \<^verbatim>\<open>Audioset\<close> does.
\<close>

theorem get_dataset_manifest:
  assumes "truthy (p_noisy_json (sources a))"
  shows "(manifest_at w (the (p_noisy_json (sources a))) = Malformed
            \<longrightarrow> get_dataset w a sr channels s = (Inl JSONDecodeError, s) \<and> main w a s = (1, s))
       \<and> (\<forall>files. manifest_at w (the (p_noisy_json (sources a))) = Parsed files
            \<longrightarrow> get_dataset w a sr channels s
                = (case Audioset w files sr channels of
                     Inl e \<Rightarrow> (Inl e, s)
                   | Inr d \<Rightarrow> (Inr (Some d), s)))"
proof (intro conjI impI allI)
  assume m: "manifest_at w (the (p_noisy_json (sources a))) = Malformed"
  then have g: "get_dataset w a sr channels s = (Inl JSONDecodeError, s)" for sr channels
    using assms by (simp add: get_dataset_sources json_load_def)
  then show "get_dataset w a sr channels s = (Inl JSONDecodeError, s)" .
  show "main w a s = (1, s)"
    by (cases "get_model w a") (simp_all add: main_def enhance_def g)
next
  fix files
  assume "manifest_at w (the (p_noisy_json (sources a))) = Parsed files"
  then show "get_dataset w a sr channels s
                = (case Audioset w files sr channels of
                     Inl e \<Rightarrow> (Inl e, s)
                   | Inr d \<Rightarrow> (Inr (Some d), s))"
    using assms by (simp add: get_dataset_sources json_load_def)
qed

theorem get_dataset_manifest_witness:
  "get_dataset example_world (parser_defaults\<lparr>noisy_json := Some ''/bad.json''\<rparr>) 16000 1 example_state
     = (Inl JSONDecodeError, example_state)
   \<and> main example_world (parser_defaults\<lparr>noisy_json := Some ''/bad.json''\<rparr>) example_state
     = (1, example_state)
   \<and> get_dataset example_world (parser_defaults\<lparr>noisy_json := Some ''/m.json''\<rparr>) 16000 1 example_state
     = (Inr (Some []), example_state)"
proof -
  let ?bad = "parser_defaults\<lparr>noisy_json := Some ''/bad.json''\<rparr>"
  let ?obj = "parser_defaults\<lparr>noisy_json := Some ''/m.json''\<rparr>"
  have t1: "truthy (p_noisy_json (sources ?bad))" and t2: "truthy (p_noisy_json (sources ?obj))"
    by (simp_all add: sources_def parser_defaults_def truthy_def)
  have m1: "manifest_at example_world (the (p_noisy_json (sources ?bad))) = Malformed"
    and m2: "manifest_at example_world (the (p_noisy_json (sources ?obj))) = Parsed (JObject [])"
    by (simp_all add: sources_def parser_defaults_def example_world_def)
  from get_dataset_manifest[OF t1, of example_world 16000 1 example_state] m1
  have a: "get_dataset example_world ?bad 16000 1 example_state = (Inl JSONDecodeError, example_state)
     \<and> main example_world ?bad example_state = (1, example_state)"
    by blast
  from get_dataset_manifest[OF t2, of example_world 16000 1 example_state] m2
  have "get_dataset example_world ?obj 16000 1 example_state
      = (case Audioset example_world (JObject []) 16000 1 of
           Inl e \<Rightarrow> (Inl e, example_state)
         | Inr d \<Rightarrow> (Inr (Some d), example_state))"
    by blast
  then have b: "get_dataset example_world ?obj 16000 1 example_state = (Inr (Some []), example_state)"
    by (simp add: example_world_def)
  from a b show ?thesis by blast
qed

text \<open>
  C9 as stated fails: with an \<^verbatim>\<open>Audioset\<close> that takes one entry for each element it finds
  in \<^verbatim>\<open>files\<close>, a manifest whose top level is the empty object resolves to a dataset
  without entries, and the script exits with status 0.
\<close>

theorem object_manifest_resolves:
  "manifest_at example_world ''/m.json'' = Parsed (JObject [])
   \<and> get_dataset example_world (parser_defaults\<lparr>noisy_json := Some ''/m.json''\<rparr>) 16000 1 example_state
     = (Inr (Some []), example_state)
   \<and> fst (main example_world (parser_defaults\<lparr>noisy_json := Some ''/m.json''\<rparr>) example_state) = 0"
  by (simp add: main_def enhance_def get_dataset_def json_load_def example_world_def parser_defaults_def
      truthy_def example_state_def example_model_def makedirs_def path_defs example_fs_def
      enhance_pool_def LogProgress_def ProcessPoolExecutor_def shutdown_def advance_def Let_def)


subsection \<open>The batch size\<close>

lemma get_estimate_batch_size:
  "get_estimate api m noisy (a\<lparr>batch_size := b\<rparr>) = get_estimate api m noisy a"
  by (simp add: get_estimate_def split: list.splits sum.splits prod.splits)

lemma estimate_and_save_batch_size:
  "estimate_and_save api (with_batch_size b j) f = estimate_and_save api j f"
  by (simp add: estimate_and_save_def with_batch_size_def get_estimate_batch_size split: sum.splits)

lemma run_jobs_batch_size:
  "run_jobs api (map (with_batch_size b) js) osf = run_jobs api js osf"
proof (induction js arbitrary: osf)
  case Nil
  then show ?case by simp
next
  case (Cons j js)
  then show ?case
    by (cases osf) (simp add: estimate_and_save_batch_size split: prod.splits)
qed

lemma advance_batch_size:
  "advance api n (map_work (with_batch_size b) pool, f)
     = (map_work (with_batch_size b) (fst (advance api n (pool, f))), snd (advance api n (pool, f)))"
proof -
  have "take (n - length (outcomes pool)) (drop (length (outcomes pool)) (map (with_batch_size b) (work pool)))
      = map (with_batch_size b) (take (n - length (outcomes pool)) (drop (length (outcomes pool)) (work pool)))"
    by (simp add: take_map drop_map)
  then show ?thesis
    by (simp add: advance_def map_work_def run_jobs_batch_size split: prod.splits del: run_jobs.simps)
qed

lemma result_batch_size:
  "result api i (map_work (with_batch_size b) pool, f)
     = (fst (result api i (pool, f)),
        map_work (with_batch_size b) (fst (snd (result api i (pool, f)))),
        snd (snd (result api i (pool, f))))"
  unfolding result_def advance_batch_size
  by (simp add: map_work_def split: prod.splits)

lemma shutdown_batch_size:
  "snd (shutdown api (map_work (with_batch_size b) pool, f)) = snd (shutdown api (pool, f))"
  unfolding shutdown_def
  using advance_batch_size[of api "length (work pool)" b pool f]
  by (simp add: map_work_def)

lemma drain_batch_size:
  "enhance_drain api pendings (map_work (with_batch_size b) pool, f)
     = (fst (enhance_drain api pendings (pool, f)),
        map_work (with_batch_size b) (fst (snd (enhance_drain api pendings (pool, f)))),
        snd (snd (enhance_drain api pendings (pool, f))))"
proof (induction pendings arbitrary: pool f)
  case Nil
  then show ?case by simp
next
  case (Cons i pendings)
  obtain r p1 f1 where r: "result api i (pool, f) = (r, p1, f1)"
    by (cases "result api i (pool, f)") auto
  then have r': "result api i (map_work (with_batch_size b) pool, f) = (r, map_work (with_batch_size b) p1, f1)"
    by (simp add: result_batch_size)
  show ?case
    by (cases r) (simp_all add: r r' Cons.IH)
qed

lemma dispatch_batch_size:
  "enhance_dispatch api m out (a\<lparr>batch_size := b\<rparr>) batches pendings (map_work (with_batch_size b) pool, f)
     = (fst (enhance_dispatch api m out a batches pendings (pool, f)),
        map_work (with_batch_size b) (fst (snd (enhance_dispatch api m out a batches pendings (pool, f)))),
        snd (snd (enhance_dispatch api m out a batches pendings (pool, f))))"
proof (induction batches arbitrary: pendings pool f)
  case Nil
  then show ?case by simp
next
  case (Cons x batches)
  show ?case
  proof (cases x)
    case (Inl e)
    then show ?thesis by simp
  next
    case (Inr nb)
    obtain noisy_signals filenames where nb: "nb = (noisy_signals, filenames)" by (cases nb)
    show ?thesis
    proof (cases "device a = ''cpu'' \<and> 1 < num_workers a")
      case True
      let ?j = "\<lparr>j_model = m, j_noisy_signals = noisy_signals, j_filenames = filenames,
                 j_out_dir = out, j_args = a\<rparr>"
      have "map_work (with_batch_size b) pool
              \<lparr>work := work (map_work (with_batch_size b) pool)
                 @ [\<lparr>j_model = m, j_noisy_signals = noisy_signals, j_filenames = filenames,
                     j_out_dir = out, j_args = a\<lparr>batch_size := b\<rparr>\<rparr>]\<rparr>
          = map_work (with_batch_size b) (pool\<lparr>work := work pool @ [?j]\<rparr>)"
        by (simp add: map_work_def with_batch_size_def)
      with True show ?thesis
        using Cons.IH[of "pendings @ [length (work pool)]" "pool\<lparr>work := work pool @ [?j]\<rparr>" f]
        by (simp add: Inr nb submit_def) (simp add: map_work_def)
    next
      case False
      then show ?thesis
        using Cons.IH[of pendings pool]
        by (auto simp: Inr nb get_estimate_batch_size split: sum.splits prod.splits)
    qed
  qed
qed

lemma enhance_pool_batch_size:
  "enhance_pool api m out (a\<lparr>batch_size := b\<rparr>) batches s = enhance_pool api m out a batches s"
proof (cases "num_workers a \<le> 0")
  case True
  then show ?thesis by (simp add: enhance_pool_def LogProgress_def ProcessPoolExecutor_def)
next
  case False
  let ?p0 = "\<lparr>max_workers = num_workers a, work = [], outcomes = []\<rparr>"
  have p: "ProcessPoolExecutor (num_workers a) = Inr ?p0"
    using False by (simp add: ProcessPoolExecutor_def)
  have m0: "map_work (with_batch_size b) ?p0 = ?p0" by (simp add: map_work_def)
  obtain r p1 f1 where d: "enhance_dispatch api m out a batches [] (?p0, fs s) = (r, p1, f1)"
    by (cases "enhance_dispatch api m out a batches [] (?p0, fs s)") auto
  have d': "enhance_dispatch api m out (a\<lparr>batch_size := b\<rparr>) batches [] (?p0, fs s)
      = (r, map_work (with_batch_size b) p1, f1)"
    using dispatch_batch_size[where api=api and m=m and out=out and a=a and b=b and batches=batches
        and pendings="[]" and pool="?p0" and f="fs s"] by (simp add: m0 d)
  show ?thesis
  proof (cases r)
    case (Inl e)
    then show ?thesis
      by (simp add: enhance_pool_def LogProgress_def p d d' shutdown_batch_size)
  next
    case (Inr pendings)
    obtain q p2 f2 where e: "enhance_drain api pendings (p1, f1) = (q, p2, f2)"
      by (cases "enhance_drain api pendings (p1, f1)") auto
    have e': "enhance_drain api pendings (map_work (with_batch_size b) p1, f1)
        = (q, map_work (with_batch_size b) p2, f2)"
      by (simp add: drain_batch_size e)
    show ?thesis
      by (simp add: enhance_pool_def LogProgress_def p d d' Inr e e' shutdown_batch_size)
  qed
qed

lemma get_dataset_batch_size:
  "get_dataset w (a\<lparr>batch_size := b\<rparr>) sr channels s = get_dataset w a sr channels s"
  by (simp add: get_dataset_def cong: option.case_cong)

text \<open>
  C10. \<^verbatim>\<open>enhance\<close> asks the loader for batches of size 1 and reads \<^verbatim>\<open>batch_size\<close> nowhere:
  two runs whose configurations differ in \<^verbatim>\<open>batch_size\<close> only return the same result and
  leave the same disk and output, provided the model loaded for both is the same; and
  the run is the same under every loader that agrees with the given one at size 1.
\<close>

theorem batch_size_ignored:
  assumes "model_arg = None \<longrightarrow> get_model w (a\<lparr>batch_size := b\<rparr>) = get_model w a"
  shows "enhance w (a\<lparr>batch_size := b\<rparr>) model_arg local_out_dir s = enhance w a model_arg local_out_dir s
       \<and> enhance (w\<lparr>loader := \<lambda>d n. loader w d 1\<rparr>) a model_arg local_out_dir s
           = enhance w a model_arg local_out_dir s"
proof
  show "enhance w (a\<lparr>batch_size := b\<rparr>) model_arg local_out_dir s = enhance w a model_arg local_out_dir s"
  proof (cases model_arg)
    case None
    with assms show ?thesis
      by (simp add: enhance_def get_dataset_batch_size enhance_pool_batch_size
          cong: sum.case_cong prod.case_cong option.case_cong if_cong)
  next
    case (Some m)
    then show ?thesis
      by (simp add: enhance_def get_dataset_batch_size enhance_pool_batch_size
          cong: sum.case_cong prod.case_cong option.case_cong if_cong)
  qed
  have "get_dataset (w\<lparr>loader := \<lambda>d n. loader w d 1\<rparr>) a sr channels s = get_dataset w a sr channels s"
    for sr channels
    by (simp add: get_dataset_def json_load_def Let_def cong: option.case_cong sum.case_cong if_cong)
  then show "enhance (w\<lparr>loader := \<lambda>d n. loader w d 1\<rparr>) a model_arg local_out_dir s
           = enhance w a model_arg local_out_dir s"
    by (simp add: enhance_def cong: sum.case_cong prod.case_cong option.case_cong if_cong)
qed


lemma example_enhance:
  "enhance example_world (parser_defaults\<lparr>noisy_json := Some ''/list.json''\<rparr>) None (Some ''/out'') example_state
   = (Inr (), example_state\<lparr>fs := example_fs\<lparr>disk_files := [[''out'', ''a.wav''] \<mapsto> ([[1]], 16000)]\<rparr>,
                             stdout := [''Waiting for pending jobs...'']\<rparr>)"
  by (simp add: enhance_def get_dataset_def json_load_def example_world_def parser_defaults_def
      example_state_def example_model_def example_api_def example_fs_def run_defs
      enhance_pool_def LogProgress_def ProcessPoolExecutor_def submit_def result_def shutdown_def advance_def Let_def
      insert_absorb)

theorem batch_size_ignored_witness:
  "enhance example_world (parser_defaults\<lparr>noisy_json := Some ''/list.json'', batch_size := 8\<rparr>)
       None (Some ''/out'') example_state
     = (Inr (), example_state\<lparr>fs := example_fs\<lparr>disk_files := [[''out'', ''a.wav''] \<mapsto> ([[1]], 16000)]\<rparr>,
                               stdout := [''Waiting for pending jobs...'']\<rparr>)
   \<and> enhance (example_world\<lparr>loader := \<lambda>d n. loader example_world d 1\<rparr>)
         (parser_defaults\<lparr>noisy_json := Some ''/list.json''\<rparr>) None (Some ''/out'') example_state
     = (Inr (), example_state\<lparr>fs := example_fs\<lparr>disk_files := [[''out'', ''a.wav''] \<mapsto> ([[1]], 16000)]\<rparr>,
                               stdout := [''Waiting for pending jobs...'']\<rparr>)"
proof -
  let ?a = "parser_defaults\<lparr>noisy_json := Some ''/list.json''\<rparr>"
  have h: "None = None \<longrightarrow> get_model example_world (?a\<lparr>batch_size := 8\<rparr>) = get_model example_world ?a"
    by (simp add: example_world_def)
  from batch_size_ignored[OF h, of "Some ''/out''" example_state] example_enhance
  show ?thesis by simp
qed

end
